theory Spec2Isabelle
  imports Complex_Main
begin

section \<open>Strings of the source language\<close>

text \<open>
  The analyzer of \<^verbatim>\<open>src/tools.ts\<close> works on JavaScript strings. A string is
  modelled as a \<^typ>\<open>string\<close>: one \<^typ>\<open>char\<close> per UTF-16 code unit, for the
  code units below 256 (Latin-1). Every keyword and pattern of the source is ASCII.
\<close>

text \<open>\<^verbatim>\<open>s.startsWith(p)\<close>, used to spell out \<^verbatim>\<open>includes\<close>.\<close>

fun starts_with :: "string \<Rightarrow> string \<Rightarrow> bool" where
  "starts_with s [] = True"
| "starts_with [] (p # ps) = False"
| "starts_with (x # xs) (p # ps) = (x = p \<and> starts_with xs ps)"

text \<open>\<^verbatim>\<open>s.includes(p)\<close>: \<open>p\<close> occurs in \<open>s\<close> as a substring.\<close>

fun str_includes :: "string \<Rightarrow> string \<Rightarrow> bool" where
  "str_includes [] p = (p = [])"
| "str_includes (x # xs) p = (starts_with (x # xs) p \<or> str_includes xs p)"

text \<open>\<^verbatim>\<open>s.split('\n')\<close>: the pieces between line feeds; never empty.\<close>

fun split_lines :: "string \<Rightarrow> string list" where
  "split_lines [] = [[]]"
| "split_lines (x # xs) =
     (if x = CHR 0x0A then [] # split_lines xs
      else (case split_lines xs of
              [] \<Rightarrow> [[x]]
            | l # ls \<Rightarrow> (x # l) # ls))"

text \<open>\<^verbatim>\<open>xs.findIndex(p)\<close>: the first index whose element satisfies \<open>p\<close>, or \<open>-1\<close>.\<close>

fun findIndex :: "('a \<Rightarrow> bool) \<Rightarrow> 'a list \<Rightarrow> int" where
  "findIndex p [] = -1"
| "findIndex p (x # xs) =
     (if p x then 0
      else (let i = findIndex p xs in if i < 0 then -1 else i + 1))"

text \<open>\<^verbatim>\<open>xs.join(sep)\<close>.\<close>

fun join :: "string \<Rightarrow> string list \<Rightarrow> string" where
  "join sep [] = []"
| "join sep [x] = x"
| "join sep (x # y # ys) = x @ sep @ join sep (y # ys)"

text \<open>The decimal numeral of a natural number, as a template literal prints a length.\<close>

fun show_nat :: "nat \<Rightarrow> string" where
  "show_nat n =
     (if n < 10 then [''0123456789'' ! n]
      else show_nat (n div 10) @ [''0123456789'' ! (n mod 10)])"

declare show_nat.simps [simp del]

subsection \<open>Character classes of the regular expressions\<close>

text \<open>\<^verbatim>\<open>\s\<close>: tab, line feed, vertical tab, form feed, carriage return, space and
  the no-break space (the white space and line terminators below 256).\<close>

definition is_space :: "char \<Rightarrow> bool" where
  "is_space c = (c \<in> set [CHR 0x09, CHR 0x0A, CHR 0x0B, CHR 0x0C, CHR 0x0D, CHR 0x20, CHR 0xA0])"

text \<open>\<^verbatim>\<open>\w\<close>: \<^verbatim>\<open>[A-Za-z0-9_]\<close>.\<close>

definition is_word :: "char \<Rightarrow> bool" where
  "is_word c = (c \<in> set ''abcdefghijklmnopqrstuvwxyzABCDEFGHIJKLMNOPQRSTUVWXYZ0123456789_'')"

text \<open>\<^verbatim>\<open>[a-zA-Z_]\<close>.\<close>

definition is_ident_start :: "char \<Rightarrow> bool" where
  "is_ident_start c = (c \<in> set ''abcdefghijklmnopqrstuvwxyzABCDEFGHIJKLMNOPQRSTUVWXYZ_'')"

text \<open>\<^verbatim>\<open>.\<close> (without the \<^verbatim>\<open>s\<close> flag): any code unit but a line terminator.\<close>

definition is_dot :: "char \<Rightarrow> bool" where
  "is_dot c = (c \<noteq> CHR 0x0A \<and> c \<noteq> CHR 0x0D)"

text \<open>\<^verbatim>\<open>s.trim()\<close>: white space and line terminators removed at both ends.\<close>

definition trim :: "string \<Rightarrow> string" where
  "trim s = rev (dropWhile is_space (rev (dropWhile is_space s)))"

section \<open>A backtracking matcher for the regular expressions of the source\<close>

text \<open>
  The patterns of the source use literals, character classes, greedy and lazy
  repetition of a character class, alternation, the word boundary \<^verbatim>\<open>\b\<close> and at most
  one capture group. \<open>Plus\<close> and \<open>Opt\<close> are the usual abbreviations.
\<close>

datatype rx =
    Eps
  | Cls "char \<Rightarrow> bool"
  | Star "char \<Rightarrow> bool"
  | LazyStar "char \<Rightarrow> bool"
  | WordB
  | Seq rx rx
  | Alt rx rx
  | Grp rx

definition Chr :: "char \<Rightarrow> rx" where
  "Chr c = Cls (\<lambda>x. x = c)"

definition Plus :: "(char \<Rightarrow> bool) \<Rightarrow> rx" where
  "Plus P = Seq (Cls P) (Star P)"

definition Opt :: "rx \<Rightarrow> rx" where
  "Opt r = Alt r Eps"

fun seqs :: "rx list \<Rightarrow> rx" where
  "seqs [] = Eps"
| "seqs [r] = r"
| "seqs (r # q # rs) = Seq r (seqs (q # rs))"

definition lit :: "string \<Rightarrow> rx" where
  "lit s = seqs (map Chr s)"

text \<open>
  A matcher state: the code unit before the current position (none at the start of the
  input), the input from the current position on, and the text of capture group 1
  (none while the group has not taken part in the match).
\<close>

type_synonym mstate = "char option \<times> string \<times> string option"

text \<open>Greedy repetition: one more code unit first, the continuation on backtracking.\<close>

fun star_greedy :: "(char \<Rightarrow> bool) \<Rightarrow> (mstate \<Rightarrow> 'a option) \<Rightarrow> char option \<Rightarrow> string option \<Rightarrow> string \<Rightarrow> 'a option" where
  "star_greedy P k p c [] = k (p, [], c)"
| "star_greedy P k p c (x # xs) =
     (if P x then
        (case star_greedy P k (Some x) c xs of
           Some r \<Rightarrow> Some r
         | None \<Rightarrow> k (p, x # xs, c))
      else k (p, x # xs, c))"

text \<open>Lazy repetition: the continuation first, one more code unit on backtracking.\<close>

fun star_lazy :: "(char \<Rightarrow> bool) \<Rightarrow> (mstate \<Rightarrow> 'a option) \<Rightarrow> char option \<Rightarrow> string option \<Rightarrow> string \<Rightarrow> 'a option" where
  "star_lazy P k p c [] = k (p, [], c)"
| "star_lazy P k p c (x # xs) =
     (case k (p, x # xs, c) of
        Some r \<Rightarrow> Some r
      | None \<Rightarrow> (if P x then star_lazy P k (Some x) c xs else None))"

text \<open>\<^verbatim>\<open>\b\<close> holds where exactly one of the two neighbours is a word character.\<close>

definition at_boundary :: "char option \<Rightarrow> string \<Rightarrow> bool" where
  "at_boundary p s =
     ((case p of None \<Rightarrow> False | Some a \<Rightarrow> is_word a)
      \<noteq> (case s of [] \<Rightarrow> False | b # bs \<Rightarrow> is_word b))"

text \<open>
  \<open>rx_match r st k\<close>: match \<open>r\<close> at state \<open>st\<close> and hand the state after it to
  the continuation \<open>k\<close>; when \<open>k\<close> fails, try the next way of matching \<open>r\<close>, in the
  order of a backtracking matcher (left alternative first).
\<close>

fun rx_match :: "rx \<Rightarrow> mstate \<Rightarrow> (mstate \<Rightarrow> 'a option) \<Rightarrow> 'a option" where
  "rx_match Eps st k = k st"
| "rx_match (Cls P) (p, s, c) k =
     (case s of
        [] \<Rightarrow> None
      | x # xs \<Rightarrow> if P x then k (Some x, xs, c) else None)"
| "rx_match (Star P) (p, s, c) k = star_greedy P k p c s"
| "rx_match (LazyStar P) (p, s, c) k = star_lazy P k p c s"
| "rx_match WordB (p, s, c) k = (if at_boundary p s then k (p, s, c) else None)"
| "rx_match (Seq a b) st k = rx_match a st (\<lambda>st'. rx_match b st' k)"
| "rx_match (Alt a b) st k =
     (case rx_match a st k of
        Some r \<Rightarrow> Some r
      | None \<Rightarrow> rx_match b st k)"
| "rx_match (Grp a) (p, s, c) k =
     rx_match a (p, s, c)
       (\<lambda>(p', s', c'). k (p', s', Some (take (length s - length s') s)))"

text \<open>One attempt at the current position: the state after the match, if any.\<close>

definition exec_at :: "rx \<Rightarrow> char option \<Rightarrow> string \<Rightarrow> mstate option" where
  "exec_at r p s = rx_match r (p, s, None) Some"

text \<open>
  \<^verbatim>\<open>s.match(re)\<close> without the \<^verbatim>\<open>g\<close> flag: the leftmost position with a match;
  the result is the matched text and the capture group.
\<close>

fun search_from :: "rx \<Rightarrow> char option \<Rightarrow> string \<Rightarrow> (string \<times> string option) option" where
  "search_from r p [] =
     (case exec_at r p [] of
        None \<Rightarrow> None
      | Some (p', s', c) \<Rightarrow> Some ([], c))"
| "search_from r p (x # xs) =
     (case exec_at r p (x # xs) of
        None \<Rightarrow> search_from r (Some x) xs
      | Some (p', s', c) \<Rightarrow> Some (take (length (x # xs) - length s') (x # xs), c))"

definition rx_search :: "rx \<Rightarrow> string \<Rightarrow> (string \<times> string option) option" where
  "rx_search r s = search_from r None s"

text \<open>
  \<^verbatim>\<open>s.match(re)\<close> with the \<^verbatim>\<open>g\<close> flag: the texts of all matches, scanning from
  the left and resuming after each match (one code unit further after an empty match).
  The empty list stands for the \<^verbatim>\<open>null\<close> that JavaScript returns when nothing matches.
\<close>

function match_all :: "rx \<Rightarrow> char option \<Rightarrow> string \<Rightarrow> string list" where
  "match_all r p s =
     (case exec_at r p s of
        None \<Rightarrow> (case s of [] \<Rightarrow> [] | x # xs \<Rightarrow> match_all r (Some x) xs)
      | Some (p', s', c) \<Rightarrow>
          if length s' < length s
          then take (length s - length s') s # match_all r p' s'
          else [] # (case s of [] \<Rightarrow> [] | x # xs \<Rightarrow> match_all r (Some x) xs))"
  by pat_completeness auto
termination
  by (relation "measure (\<lambda>(r, p, s). length s)") auto

declare match_all.simps [simp del]

text \<open>
  \<^verbatim>\<open>s.split(re)\<close> for a pattern without capture groups: at each position the pattern
  is tried there only; a match ends the current piece and the search resumes after it. An
  empty match at the start of the current piece is skipped. \<open>acc\<close> is the piece read
  so far.
\<close>

function split_loop :: "rx \<Rightarrow> string \<Rightarrow> char option \<Rightarrow> string \<Rightarrow> string list" where
  "split_loop r acc p [] = [acc]"
| "split_loop r acc p (x # xs) =
     (case exec_at r p (x # xs) of
        None \<Rightarrow> split_loop r (acc @ [x]) (Some x) xs
      | Some (p', s', c) \<Rightarrow>
          if length s' < length (x # xs) then acc # split_loop r [] p' s'
          else if acc = [] then split_loop r [x] (Some x) xs
          else acc # split_loop r [x] (Some x) xs)"
  by pat_completeness auto
termination
  by (relation "measure (\<lambda>(r, acc, p, s). length s)") auto

declare split_loop.simps [simp del]

definition rx_split :: "rx \<Rightarrow> string \<Rightarrow> string list" where
  "rx_split r s =
     (if s = [] then (case exec_at r None [] of None \<Rightarrow> [[]] | Some m \<Rightarrow> [])
      else split_loop r [] None s)"

subsection \<open>The patterns of \<^verbatim>\<open>src/tools.ts\<close>\<close>

text \<open>\<^verbatim>\<open>/always\s*@\s*\(\s*posedge|negedge/\<close>: the alternation binds weakest.\<close>

definition rx_hasAlwaysFF :: rx where
  "rx_hasAlwaysFF =
     Alt (seqs [lit ''always'', Star is_space, Chr CHR ''@'', Star is_space, Chr CHR ''('',
                Star is_space, lit ''posedge''])
         (lit ''negedge'')"

text \<open>\<^verbatim>\<open>/always\s*@\s*\((.*?)\)/\<close>\<close>

definition rx_alwaysMatch :: rx where
  "rx_alwaysMatch =
     seqs [lit ''always'', Star is_space, Chr CHR ''@'', Star is_space, Chr CHR ''('',
           Grp (LazyStar is_dot), Chr CHR '')'']"

text \<open>\<^verbatim>\<open>/\s+or\s+|\s+,\s+/\<close>\<close>

definition rx_listedSignals :: rx where
  "rx_listedSignals =
     Alt (seqs [Plus is_space, lit ''or'', Plus is_space])
         (seqs [Plus is_space, Chr CHR '','', Plus is_space])"

text \<open>\<^verbatim>\<open>/(\w+)\s*[<]?=/g\<close>\<close>

definition rx_assignments :: rx where
  "rx_assignments =
     seqs [Grp (Plus is_word), Star is_space, Opt (Chr CHR ''<''), Chr CHR ''='']"

text \<open>\<^verbatim>\<open>/\s*[<]?=/\<close>\<close>

definition rx_assign_op :: rx where
  "rx_assign_op = seqs [Star is_space, Opt (Chr CHR ''<''), Chr CHR ''='']"

text \<open>\<^verbatim>\<open>/@\s*\(posedge\s+(\w+)\)/g\<close>\<close>

definition rx_hasClock :: rx where
  "rx_hasClock =
     seqs [Chr CHR ''@'', Star is_space, Chr CHR ''('', lit ''posedge'', Plus is_space,
           Grp (Plus is_word), Chr CHR '')'']"

text \<open>\<^verbatim>\<open>/posedge\s+(\w+)/\<close>\<close>

definition rx_posedge :: rx where
  "rx_posedge = seqs [lit ''posedge'', Plus is_space, Grp (Plus is_word)]"

text \<open>\<^verbatim>\<open>/\b([a-zA-Z_]\w*)\b/g\<close>\<close>

definition rx_identifier :: rx where
  "rx_identifier = seqs [WordB, Grp (Seq (Cls is_ident_start) (Star is_word)), WordB]"

text \<open>\<^verbatim>\<open>/\s+variable\s+/\<close> and \<^verbatim>\<open>/\s+signal\s+/\<close>\<close>

definition rx_hasVariables :: rx where
  "rx_hasVariables = seqs [Plus is_space, lit ''variable'', Plus is_space]"

definition rx_hasSignals :: rx where
  "rx_hasSignals = seqs [Plus is_space, lit ''signal'', Plus is_space]"

section \<open>The data model\<close>

datatype severity = Error | Warning | Info

record hdl_issue =
  type :: string
  severity :: severity
  line :: "int option"
  message :: string
  suggestion :: string

record analysis_result =
  totalIssues :: nat
  issues :: "hdl_issue list"
  summary :: string

datatype language = Verilog | Vhdl

text \<open>
  The only exception the analyzer could raise: a method call on \<^verbatim>\<open>undefined\<close>
  (a capture group that took no part in the match, or the first element of an empty
  array).
\<close>

datatype js_error = TypeError

section \<open>The signal extractor\<close>

text \<open>A \<^verbatim>\<open>Set\<close> keeps its elements in insertion order; \<^verbatim>\<open>add\<close> ignores a member.\<close>

definition Set_add :: "'a \<Rightarrow> 'a list \<Rightarrow> 'a list" where
  "Set_add x xs = (if x \<in> set xs then xs else xs @ [x])"

definition keyword_blocklist :: "string list" where
  "keyword_blocklist = [''always'', ''if'', ''else'', ''case'', ''begin'', ''end'', ''module'', ''endmodule'']"

definition extractSignals :: "string \<Rightarrow> string list" where
  "extractSignals code =
     fold (\<lambda>l signals.
             fold (\<lambda>m sigs. if m \<in> set keyword_blocklist then sigs else Set_add m sigs)
                  (match_all rx_identifier None l) signals)
          (split_lines code) []"

section \<open>The issue detector\<close>

subsection \<open>Verilog rules\<close>

definition verilog_latch :: "string \<Rightarrow> hdl_issue list" where
  "verilog_latch code =
     (if str_includes code ''if'' \<and> \<not> str_includes code ''else'' then
        (let lines = split_lines code;
             ifLine = findIndex (\<lambda>l. str_includes l ''if'') lines
         in [\<lparr>type = ''latch_inference'', severity = Warning, line = Some (ifLine + 1),
               message = ''Incomplete if statement may cause latch inference'',
               suggestion = ''Add an else clause or default assignment before the if statement''\<rparr>])
      else [])"

definition hasAlwaysFF :: "string \<Rightarrow> bool" where
  "hasAlwaysFF code = (rx_search rx_hasAlwaysFF code \<noteq> None)"

definition hasBlockingInFF :: "string \<Rightarrow> bool" where
  "hasBlockingInFF code =
     (hasAlwaysFF code \<and> str_includes code ''='' \<and> \<not> str_includes code ''<='')"

definition verilog_blocking :: "string \<Rightarrow> hdl_issue list" where
  "verilog_blocking code =
     (if hasBlockingInFF code then
        [\<lparr>type = ''blocking_in_sequential'', severity = Error, line = None,
          message = ''Using blocking assignments (=) in sequential always block'',
          suggestion = ''Use non-blocking assignments (<=) for sequential logic''\<rparr>]
      else [])"

definition verilog_sensitivity :: "string \<Rightarrow> js_error + hdl_issue list" where
  "verilog_sensitivity code =
     (case rx_search rx_alwaysMatch code of
        None \<Rightarrow> Inr []
      | Some (m, group1) \<Rightarrow>
          (case group1 of
             None \<Rightarrow> Inl TypeError
           | Some sensitivityList \<Rightarrow>
               if \<not> str_includes sensitivityList ''posedge''
                  \<and> \<not> str_includes sensitivityList ''negedge''
               then
                 (let usedSignals = extractSignals code;
                      listedSignals = rx_split rx_listedSignals sensitivityList;
                      missing = filter (\<lambda>s. s \<notin> set listedSignals) usedSignals
                  in if length missing > 0 then
                       Inr [\<lparr>type = ''incomplete_sensitivity'', severity = Warning, line = None,
                             message = ''Potentially incomplete sensitivity list. Missing signals: ''
                                       @ join '', '' missing,
                             suggestion = ''Use always @(*) for automatic sensitivity list generation''\<rparr>]
                     else Inr [])
               else Inr []))"

definition verilog_case_default :: "string \<Rightarrow> hdl_issue list" where
  "verilog_case_default code =
     (if str_includes code ''case'' \<and> \<not> str_includes code ''default'' then
        [\<lparr>type = ''no_case_default'', severity = Warning, line = None,
          message = ''Case statement without default clause'',
          suggestion = ''Add a default clause to handle unexpected values''\<rparr>]
      else [])"

text \<open>
  A \<^verbatim>\<open>Map\<close> keeps its keys in insertion order: an association list, where
  \<^verbatim>\<open>set\<close> overwrites the value of a key in place and appends a new key.
\<close>

fun Map_get :: "('k \<times> 'v) list \<Rightarrow> 'k \<Rightarrow> 'v option" where
  "Map_get [] k = None"
| "Map_get ((k', v) # m) k = (if k' = k then Some v else Map_get m k)"

fun Map_set :: "('k \<times> 'v) list \<Rightarrow> 'k \<Rightarrow> 'v \<Rightarrow> ('k \<times> 'v) list" where
  "Map_set [] k v = [(k, v)]"
| "Map_set ((k', v') # m) k v = (if k' = k then (k, v) # m else (k', v') # Map_set m k v)"

text \<open>The \<^verbatim>\<open>forEach\<close> over the matched assignments, filling \<open>signalCounts\<close>.\<close>

fun count_assignments :: "string list \<Rightarrow> (string \<times> nat) list \<Rightarrow> js_error + (string \<times> nat) list" where
  "count_assignments [] signalCounts = Inr signalCounts"
| "count_assignments (a # as) signalCounts =
     (case rx_split rx_assign_op a of
        [] \<Rightarrow> Inl TypeError
      | piece # pieces \<Rightarrow>
          (let signal = trim piece
           in count_assignments as
                (Map_set signalCounts signal
                   ((case Map_get signalCounts signal of None \<Rightarrow> 0 | Some n \<Rightarrow> n) + 1))))"

definition multiple_issue :: "string \<Rightarrow> hdl_issue" where
  "multiple_issue signal =
     \<lparr>type = ''multiple_assignments'', severity = Error, line = None,
      message = ''Signal '' @ [CHR 0x27] @ signal @ [CHR 0x27] @ '' assigned multiple times'',
      suggestion = ''Ensure each signal is assigned in only one always block or assign statement''\<rparr>"

definition verilog_multiple :: "string \<Rightarrow> js_error + hdl_issue list" where
  "verilog_multiple code =
     (let assignments = match_all rx_assignments None code
      in if assignments \<noteq> [] then
           (case count_assignments assignments [] of
              Inl e \<Rightarrow> Inl e
            | Inr signalCounts \<Rightarrow>
                Inr (concat (map (\<lambda>(signal, count). if count > 1 then [multiple_issue signal] else [])
                                 signalCounts)))
         else Inr [])"

text \<open>The clock names of the matched headers; \<^verbatim>\<open>undefined\<close> is \<open>None\<close>.\<close>

definition clocks_of :: "string list \<Rightarrow> string option list" where
  "clocks_of hasClock =
     map (\<lambda>h. case rx_search rx_posedge h of None \<Rightarrow> None | Some (m, group1) \<Rightarrow> group1) hasClock"

definition verilog_cdc :: "string \<Rightarrow> hdl_issue list" where
  "verilog_cdc code =
     (let hasClock = match_all rx_hasClock None code
      in if hasClock \<noteq> [] \<and> length hasClock > 1 then
           (let clocks = clocks_of hasClock
            in if length (remdups clocks) > 1 then
                 [\<lparr>type = ''clock_domain_crossing'', severity = Warning, line = None,
                   message = ''Multiple clock domains detected - potential CDC issues'',
                   suggestion = ''Use proper synchronizers (two-flop) for single-bit CDC, async FIFOs for data''\<rparr>]
               else [])
         else [])"

definition verilog_rules :: "string \<Rightarrow> js_error + hdl_issue list" where
  "verilog_rules code =
     (case verilog_sensitivity code of
        Inl e \<Rightarrow> Inl e
      | Inr sens \<Rightarrow>
          (case verilog_multiple code of
             Inl e \<Rightarrow> Inl e
           | Inr mult \<Rightarrow>
               Inr (verilog_latch code @ verilog_blocking code @ sens
                    @ verilog_case_default code @ mult @ verilog_cdc code)))"

subsection \<open>VHDL rules\<close>

definition vhdl_latch :: "string \<Rightarrow> hdl_issue list" where
  "vhdl_latch code =
     (if str_includes code ''process'' \<and> \<not> str_includes code ''else'' then
        [\<lparr>type = ''latch_inference'', severity = Warning, line = None,
          message = ''Incomplete conditional assignment in process may cause latch'',
          suggestion = ''Ensure all signals have default assignments or complete if-else chains''\<rparr>]
      else [])"

definition vhdl_mixed :: "string \<Rightarrow> hdl_issue list" where
  "vhdl_mixed code =
     (let hasVariables = rx_search rx_hasVariables code;
          hasSignals = rx_search rx_hasSignals code
      in if hasVariables \<noteq> None \<and> hasSignals \<noteq> None then
           [\<lparr>type = ''mixed_variable_signal'', severity = Info, line = None,
             message = ''Process uses both variables and signals'',
             suggestion = ''Variables update immediately, signals update at end of process - ensure correct usage''\<rparr>]
         else [])"

definition vhdl_rules :: "string \<Rightarrow> hdl_issue list" where
  "vhdl_rules code = vhdl_latch code @ vhdl_mixed code"

subsection \<open>The rule for both languages, the summary and the detector\<close>

definition style_rule :: "string \<Rightarrow> hdl_issue list" where
  "style_rule code =
     (let lines = split_lines code;
          longLines = filter (\<lambda>l. length l > 120) lines
      in if length longLines > 0 then
           [\<lparr>type = ''style'', severity = Info, line = None,
             message = show_nat (length longLines) @ '' lines exceed 120 characters'',
             suggestion = ''Consider breaking long lines for better readability''\<rparr>]
         else [])"

definition generateSummary :: "hdl_issue list \<Rightarrow> string" where
  "generateSummary iss =
     (if length iss = 0 then ''No issues found. Code looks good!''
      else
        (let errors = length (filter (\<lambda>i. severity i = Error) iss);
             warnings = length (filter (\<lambda>i. severity i = Warning) iss);
             info = length (filter (\<lambda>i. severity i = Info) iss);
             head = ''Found '' @ show_nat (length iss) @ '' issue(s): '';
             parts = (if errors > 0 then [show_nat errors @ '' error(s)''] else [])
                   @ (if warnings > 0 then [show_nat warnings @ '' warning(s)''] else [])
                   @ (if info > 0 then [show_nat info @ '' info''] else [])
         in head @ join '', '' parts))"

text \<open>
  \<^verbatim>\<open>analyzeVerilogTool.execute\<close>, the \<^verbatim>\<open>analyze\<close> of the specification. The issues
  are pushed in the order of the rules (\<open>pushed\<close> is the array \<^verbatim>\<open>issues\<close>); an
  exception in a rule would leave no result.
\<close>

definition analyzeVerilog :: "string \<Rightarrow> language \<Rightarrow> js_error + analysis_result" where
  "analyzeVerilog code language =
     (case (case language of Verilog \<Rightarrow> verilog_rules code | Vhdl \<Rightarrow> Inr (vhdl_rules code)) of
        Inl e \<Rightarrow> Inl e
      | Inr found \<Rightarrow>
          (let pushed = found @ style_rule code
           in Inr \<lparr>totalIssues = length pushed, issues = pushed,
                   summary = generateSummary pushed\<rparr>))"

section \<open>The timing advisory generator\<close>

datatype violation = Setup | Hold | Both | Unknown

record guidance_step =
  step :: string
  description :: string
  commands :: "string list option"

record timing_result =
  issue :: string
  violationType :: violation
  guidance :: "guidance_step list"
  generalTips :: "string list"

text \<open>
  Numbers. The target frequency is modelled for the integer-valued numbers (an
  \<^typ>\<open>int\<close>), the period \<^verbatim>\<open>1000 / clockFrequency\<close> as the exact quotient. For a
  non-zero integer the quotient lies strictly between two rounding boundaries of
  \<^verbatim>\<open>toFixed(3)\<close> or exactly on a boundary that the floating-point quotient reaches
  from above, so the three decimals are those of the floating-point quotient. \<^verbatim>\<open>NaN\<close>
  and the infinities are not modelled.
\<close>







section \<open>The clock-domain-crossing advisory generator\<close>

datatype signal_type = Single_bit | Multi_bit | Bus | Handshake

record recommendation =
  scenario :: string
  solution :: string
  verilogExample :: "string option"

record cdc_result =
  cdc_description :: string
  signalType :: "signal_type option"
  recommendations :: "recommendation list"
  generalGuidelines :: "string list"
  toolRecommendations :: "string list"

definition two_flop_example :: string where
  "two_flop_example =
     ''\<newline>'' @
     ''// Two-flop synchronizer for single-bit signal\<newline>'' @
     ''reg sync_ff1, sync_ff2;\<newline>'' @
     ''\<newline>'' @
     ''always @(posedge clk_dest or negedge rst_n) begin\<newline>'' @
     ''  if (!rst_n) begin\<newline>'' @
     ''    sync_ff1 <= 1'b0;\<newline>'' @
     ''    sync_ff2 <= 1'b0;\<newline>'' @
     ''  end else begin\<newline>'' @
     ''    sync_ff1 <= signal_from_source_domain;\<newline>'' @
     ''    sync_ff2 <= sync_ff1;\<newline>'' @
     ''  end\<newline>'' @
     ''end\<newline>'' @
     ''\<newline>'' @
     ''assign synced_signal = sync_ff2;''"

definition gray_code_example :: string where
  "gray_code_example =
     ''\<newline>'' @
     ''// Gray code counter for CDC\<newline>'' @
     ''function [N-1:0] bin2gray;\<newline>'' @
     ''  input [N-1:0] bin;\<newline>'' @
     ''  begin\<newline>'' @
     ''    bin2gray = bin ^ (bin >> 1);\<newline>'' @
     ''  end\<newline>'' @
     ''endfunction\<newline>'' @
     ''\<newline>'' @
     ''// In source domain\<newline>'' @
     ''gray_counter <= bin2gray(binary_counter);\<newline>'' @
     ''\<newline>'' @
     ''// In destination domain (synchronize each bit)\<newline>'' @
     ''always @(posedge clk_dest) begin\<newline>'' @
     ''  gray_sync1 <= gray_counter;\<newline>'' @
     ''  gray_sync2 <= gray_sync1;\<newline>'' @
     ''end''"

definition bus_handshake_example :: string where
  "bus_handshake_example =
     ''\<newline>'' @
     ''// Handshake protocol for data bus\<newline>'' @
     ''// Source domain\<newline>'' @
     ''always @(posedge clk_src) begin\<newline>'' @
     ''  if (data_valid && !req) begin\<newline>'' @
     ''    req <= ~req;  // Toggle request\<newline>'' @
     ''    data_reg <= data;\<newline>'' @
     ''  end\<newline>'' @
     ''end\<newline>'' @
     ''\<newline>'' @
     ''// Destination domain\<newline>'' @
     ''always @(posedge clk_dest) begin\<newline>'' @
     ''  req_sync1 <= req;\<newline>'' @
     ''  req_sync2 <= req_sync1;\<newline>'' @
     ''  req_sync3 <= req_sync2;\<newline>'' @
     ''  \<newline>'' @
     ''  if (req_sync2 != req_sync3) begin\<newline>'' @
     ''    // New data available\<newline>'' @
     ''    data_out <= data_reg;\<newline>'' @
     ''  end\<newline>'' @
     ''end''"

definition four_phase_example :: string where
  "four_phase_example =
     ''\<newline>'' @
     ''// Four-phase handshake CDC\<newline>'' @
     ''// Source domain\<newline>'' @
     ''always @(posedge clk_src) begin\<newline>'' @
     ''  if (send_data && !req && ack_synced) begin\<newline>'' @
     ''    data_reg <= data_in;\<newline>'' @
     ''    req <= 1'b1;\<newline>'' @
     ''  end else if (req && ack_synced) begin\<newline>'' @
     ''    req <= 1'b0;\<newline>'' @
     ''  end\<newline>'' @
     ''end\<newline>'' @
     ''\<newline>'' @
     ''// Sync ack back to source\<newline>'' @
     ''always @(posedge clk_src) begin\<newline>'' @
     ''  ack_sync1 <= ack;\<newline>'' @
     ''  ack_synced <= ack_sync1;\<newline>'' @
     ''end\<newline>'' @
     ''\<newline>'' @
     ''// Destination domain\<newline>'' @
     ''always @(posedge clk_dest) begin\<newline>'' @
     ''  req_sync1 <= req;\<newline>'' @
     ''  req_sync2 <= req_sync1;\<newline>'' @
     ''  \<newline>'' @
     ''  if (req_sync2 && !ack) begin\<newline>'' @
     ''    data_out <= data_reg;\<newline>'' @
     ''    ack <= 1'b1;\<newline>'' @
     ''  end else if (!req_sync2 && ack) begin\<newline>'' @
     ''    ack <= 1'b0;\<newline>'' @
     ''  end\<newline>'' @
     ''end''"

text \<open>\<^verbatim>\<open>detectCDCIssuesTool.execute\<close>, the \<^verbatim>\<open>cdcGuidance\<close> of the specification; the
  field \<^verbatim>\<open>description\<close> of its result is \<open>cdc_description\<close> here.\<close>

definition detectCDCIssues :: "string \<Rightarrow> signal_type option \<Rightarrow> cdc_result" where
  "detectCDCIssues description_text signalType_opt =
     \<lparr>cdc_description = description_text,
      signalType = signalType_opt,
      recommendations =
        (if signalType_opt = Some Single_bit \<or> signalType_opt = None then
           [\<lparr>scenario = ''Single-bit CDC crossing'',
             solution = ''Use a two-flop synchronizer'',
             verilogExample = Some two_flop_example\<rparr>]
         else [])
        @ (if signalType_opt = Some Multi_bit \<or> signalType_opt = Some Bus then
             [\<lparr>scenario = ''Multi-bit bus crossing'',
               solution = ''Use Gray code encoding or handshake protocol'',
               verilogExample = Some gray_code_example\<rparr>,
              \<lparr>scenario = ''Data bus with enable signal'',
               solution = ''Use toggle-based or handshake protocol'',
               verilogExample = Some bus_handshake_example\<rparr>]
           else [])
        @ (if signalType_opt = Some Handshake then
             [\<lparr>scenario = ''Handshake-based data transfer'',
               solution = ''Four-phase handshake with proper synchronization'',
               verilogExample = Some four_phase_example\<rparr>]
           else []),
      generalGuidelines =
        [''Never cross multi-bit buses without proper synchronization'',
         ''Use gray code for counters and pointers'',
         ''Always use at least two flops for synchronization'',
         ''Consider metastability recovery time (MTBF)'',
         ''Use async FIFOs for high-bandwidth data transfers'',
         ''Verify CDC paths with formal tools (Jasper, VC Formal)''],
      toolRecommendations =
        [''Synopsys SpyGlass CDC verification'',
         ''Cadence JasperGold CDC'',
         ''Real Intent Meridian CDC'']\<rparr>"

section \<open>Notions used to state the properties\<close>

text \<open>The issues of one kind, in the order of the result.\<close>

definition issues_of_type :: "string \<Rightarrow> hdl_issue list \<Rightarrow> hdl_issue list" where
  "issues_of_type t iss = filter (\<lambda>i. type i = t) iss"

text \<open>The number of issues of one severity.\<close>

definition count_severity :: "severity \<Rightarrow> hdl_issue list \<Rightarrow> nat" where
  "count_severity sv iss = length (filter (\<lambda>i. severity i = sv) iss)"

text \<open>
  The summary as the specification words it, written out from the three severity counts
  alone: the fixed message for no issue, else the total, then each count that is not
  zero with its label, in the order error, warning, info, with a comma and a space
  between two counts that are listed.
\<close>

definition summary_template :: "nat \<Rightarrow> nat \<Rightarrow> nat \<Rightarrow> string" where
  "summary_template e w i =
     (if e = 0 \<and> w = 0 \<and> i = 0 then ''No issues found. Code looks good!''
      else ''Found '' @ show_nat (e + w + i) @ '' issue(s): ''
           @ (if 0 < e then show_nat e @ '' error(s)'' else [])
           @ (if 0 < e \<and> 0 < w + i then '', '' else [])
           @ (if 0 < w then show_nat w @ '' warning(s)'' else [])
           @ (if 0 < w \<and> 0 < i then '', '' else [])
           @ (if 0 < i then show_nat i @ '' info'' else []))"

text \<open>The number that a string of decimal digits denotes.\<close>

definition digits_value :: "string \<Rightarrow> nat" where
  "digits_value s = foldl (\<lambda>a c. 10 * a + (of_char c - 48)) 0 s"

text \<open>The target that the detector counts for one matched assignment.\<close>

definition target_of :: "string \<Rightarrow> string" where
  "target_of a = (case rx_split rx_assign_op a of [] \<Rightarrow> [] | piece # pieces \<Rightarrow> trim piece)"

text \<open>The targets of all assignment-like expressions of a source, in source order.\<close>

definition assignment_targets :: "string \<Rightarrow> string list" where
  "assignment_targets code = map target_of (match_all rx_assignments None code)"

text \<open>The clock names of the collected headers \<^verbatim>\<open>@(posedge name)\<close>, in source order.\<close>

definition clock_names :: "string \<Rightarrow> string option list" where
  "clock_names code = clocks_of (match_all rx_hasClock None code)"

text \<open>
  What a pattern can do, without the order of the attempts: \<open>rx_reach r st st'\<close> holds
  when \<open>r\<close> can match from the state \<open>st\<close> and leave the state \<open>st'\<close>. The matcher
  is sound and complete for it (\<open>rx_match_sound\<close>, \<open>rx_match_complete\<close> below).
\<close>

fun rx_reach :: "rx \<Rightarrow> mstate \<Rightarrow> mstate \<Rightarrow> bool" where
  "rx_reach Eps st st' = (st' = st)"
| "rx_reach (Cls P) (p, s, c) st' = (\<exists>x xs. s = x # xs \<and> P x \<and> st' = (Some x, xs, c))"
| "rx_reach (Star P) (p, s, c) st' =
     (\<exists>u v. s = u @ v \<and> (\<forall>x\<in>set u. P x) \<and> st' = (if u = [] then p else Some (last u), v, c))"
| "rx_reach (LazyStar P) (p, s, c) st' =
     (\<exists>u v. s = u @ v \<and> (\<forall>x\<in>set u. P x) \<and> st' = (if u = [] then p else Some (last u), v, c))"
| "rx_reach WordB (p, s, c) st' = (at_boundary p s \<and> st' = (p, s, c))"
| "rx_reach (Seq a b) st st' = (\<exists>m. rx_reach a st m \<and> rx_reach b m st')"
| "rx_reach (Alt a b) st st' = (rx_reach a st st' \<or> rx_reach b st st')"
| "rx_reach (Grp a) (p, s, c) st' =
     (\<exists>p' s' c'. rx_reach a (p, s, c) (p', s', c')
        \<and> st' = (p', s', Some (take (length s - length s') s)))"

text \<open>A pattern that sets capture group 1 whenever it matches.\<close>

fun sets_group :: "rx \<Rightarrow> bool" where
  "sets_group (Grp a) = True"
| "sets_group (Seq a b) = (sets_group a \<or> sets_group b)"
| "sets_group (Alt a b) = (sets_group a \<and> sets_group b)"
| "sets_group r = False"

text \<open>One step of the \<^verbatim>\<open>forEach\<close> that counts targets: \<^verbatim>\<open>signalCounts.set(signal,
  (signalCounts.get(signal) || 0) + 1)\<close>.\<close>

definition bump :: "(string \<times> nat) list \<Rightarrow> string \<Rightarrow> (string \<times> nat) list" where
  "bump m s = Map_set m s ((case Map_get m s of None \<Rightarrow> 0 | Some n \<Rightarrow> n) + 1)"

text \<open>The issue of the Verilog latch rule, with its line.\<close>

definition latch_issue :: "int \<Rightarrow> hdl_issue" where
  "latch_issue n = \<lparr>type = ''latch_inference'', severity = Warning, line = Some n,
       message = ''Incomplete if statement may cause latch inference'',
       suggestion = ''Add an else clause or default assignment before the if statement''\<rparr>"

text \<open>The texts a pattern can match, without the boundary tests, and the patterns
  free of boundary tests.\<close>

fun lang :: "rx \<Rightarrow> string set" where
  "lang Eps = {[]}"
| "lang (Cls P) = {[x] | x. P x}"
| "lang (Star P) = {u. \<forall>x\<in>set u. P x}"
| "lang (LazyStar P) = {u. \<forall>x\<in>set u. P x}"
| "lang WordB = {[]}"
| "lang (Seq a b) = {u @ v | u v. u \<in> lang a \<and> v \<in> lang b}"
| "lang (Alt a b) = lang a \<union> lang b"
| "lang (Grp a) = lang a"

fun wordb_free :: "rx \<Rightarrow> bool" where
  "wordb_free WordB = False"
| "wordb_free (Seq a b) = (wordb_free a \<and> wordb_free b)"
| "wordb_free (Alt a b) = (wordb_free a \<and> wordb_free b)"
| "wordb_free (Grp a) = wordb_free a"
| "wordb_free r = True"

text \<open>The one issue of the clock-domain rule; its message names no signal.\<close>

definition cdc_issue :: hdl_issue where
  "cdc_issue =
     \<lparr>type = ''clock_domain_crossing'', severity = Warning, line = None,
      message = ''Multiple clock domains detected - potential CDC issues'',
      suggestion = ''Use proper synchronizers (two-flop) for single-bit CDC, async FIFOs for data''\<rparr>"

text \<open>
  A clock header, as a text: \<^verbatim>\<open>@\<close>, white space or none, \<^verbatim>\<open>(posedge\<close>, white space,
  a name of word characters and \<^verbatim>\<open>)\<close>, with nothing else between the parentheses;
  and the names of the clock headers that occur in a source.
\<close>

definition clock_header :: "string \<Rightarrow> string \<Rightarrow> bool" where
  "clock_header h name \<longleftrightarrow>
     (\<exists>ws ws1. h = ''@'' @ ws @ ''(posedge'' @ ws1 @ name @ '')''
        \<and> (\<forall>c\<in>set ws. is_space c)
        \<and> ws1 \<noteq> [] \<and> (\<forall>c\<in>set ws1. is_space c)
        \<and> name \<noteq> [] \<and> (\<forall>c\<in>set name. is_word c))"

definition header_names :: "string \<Rightarrow> string set" where
  "header_names code = {name. \<exists>pre h post. code = pre @ h @ post \<and> clock_header h name}"

section \<open>Strings and the matcher: basic facts\<close>

lemma starts_with_iff: "starts_with s p \<longleftrightarrow> (\<exists>v. s = p @ v)"
  by (induction s p rule: starts_with.induct) auto

lemma str_includes_iff: "str_includes s p \<longleftrightarrow> (\<exists>u v. s = u @ p @ v)"
proof (induction s)
  case Nil
  then show ?case by auto
next
  case (Cons x xs)
  show ?case
  proof
    assume "str_includes (x # xs) p"
    then consider "starts_with (x # xs) p" | "str_includes xs p" by auto
    then show "\<exists>u v. x # xs = u @ p @ v"
    proof cases
      case 1
      then obtain v where "x # xs = p @ v" by (auto simp: starts_with_iff)
      then have "x # xs = [] @ p @ v" by simp
      then show ?thesis by blast
    next
      case 2
      then obtain u v where "xs = u @ p @ v" using Cons.IH by blast
      then have "x # xs = (x # u) @ p @ v" by simp
      then show ?thesis by blast
    qed
  next
    assume "\<exists>u v. x # xs = u @ p @ v"
    then obtain u v where uv: "x # xs = u @ p @ v" by blast
    show "str_includes (x # xs) p"
    proof (cases u)
      case Nil
      then have "x # xs = p @ v" using uv by simp
      then have "starts_with (x # xs) p" unfolding starts_with_iff by blast
      then show ?thesis by simp
    next
      case (Cons a u')
      then have "xs = u' @ p @ v" using uv by simp
      then show ?thesis using Cons.IH by auto
    qed
  qed
qed

lemma split_lines_nonempty: "split_lines s \<noteq> []"
  by (induction s) (auto split: list.splits)

lemma split_loop_nonempty: "split_loop r acc p s \<noteq> []"
proof (induction s arbitrary: acc p rule: length_induct)
  case (1 s)
  show ?case
  proof (cases s)
    case Nil
    then show ?thesis by (simp add: split_loop.simps)
  next
    case (Cons x xs)
    have "split_loop r (acc @ [x]) (Some x) xs \<noteq> []" "split_loop r [x] (Some x) xs \<noteq> []"
      using 1 Cons by auto
    then show ?thesis using Cons
      by (auto simp: split_loop.simps split: option.splits)
  qed
qed

lemma star_greedy_sound:
  "star_greedy P k p c s = Some res \<Longrightarrow>
   \<exists>u v. s = u @ v \<and> (\<forall>x\<in>set u. P x) \<and> k (if u = [] then p else Some (last u), v, c) = Some res"
proof (induction s arbitrary: p)
  case Nil
  then show ?case by auto
next
  case (Cons x xs)
  show ?case
  proof (cases "P x \<and> star_greedy P k (Some x) c xs \<noteq> None")
    case True
    then have "star_greedy P k (Some x) c xs = Some res" using Cons.prems by auto
    then obtain u v where uv: "xs = u @ v" "\<forall>y\<in>set u. P y"
      "k (if u = [] then Some x else Some (last u), v, c) = Some res"
      using Cons.IH by blast
    have "x # xs = (x # u) @ v \<and> (\<forall>y\<in>set (x # u). P y) \<and>
      k (if x # u = [] then p else Some (last (x # u)), v, c) = Some res"
      using uv True by auto
    then show ?thesis by blast
  next
    case False
    then have "k (p, x # xs, c) = Some res" using Cons.prems by (auto split: if_splits option.splits)
    then have "x # xs = [] @ (x # xs) \<and> (\<forall>y\<in>set []. P y) \<and>
       k (if [] = [] then p else Some (last []), x # xs, c) = Some res" by simp
    then show ?thesis by blast
  qed
qed

lemma star_greedy_complete:
  "star_greedy P k p c s = None \<Longrightarrow> s = u @ v \<Longrightarrow> \<forall>x\<in>set u. P x \<Longrightarrow>
   k (if u = [] then p else Some (last u), v, c) = None"
proof (induction s arbitrary: p u)
  case Nil
  then show ?case by auto
next
  case (Cons x xs)
  show ?case
  proof (cases u)
    case Nil
    then show ?thesis using Cons.prems by (auto split: if_splits option.splits)
  next
    case (Cons y u')
    then have "P x" "xs = u' @ v" "y = x" "\<forall>x\<in>set u'. P x" using Cons.prems by auto
    moreover have "star_greedy P k (Some x) c xs = None"
      using Cons.prems(1) \<open>P x\<close> by (auto split: option.splits)
    ultimately have "k (if u' = [] then Some x else Some (last u'), v, c) = None"
      using Cons.IH by blast
    then show ?thesis using Cons \<open>y = x\<close> by auto
  qed
qed

lemma star_lazy_sound:
  "star_lazy P k p c s = Some res \<Longrightarrow>
   \<exists>u v. s = u @ v \<and> (\<forall>x\<in>set u. P x) \<and> k (if u = [] then p else Some (last u), v, c) = Some res"
proof (induction s arbitrary: p)
  case Nil
  then show ?case by auto
next
  case (Cons x xs)
  show ?case
  proof (cases "k (p, x # xs, c)")
    case (Some r)
    then have "k (p, x # xs, c) = Some res" using Cons.prems by auto
    then have "x # xs = [] @ (x # xs) \<and> (\<forall>y\<in>set []. P y) \<and>
       k (if [] = [] then p else Some (last []), x # xs, c) = Some res" by simp
    then show ?thesis by blast
  next
    case None
    then have px: "P x" and "star_lazy P k (Some x) c xs = Some res"
      using Cons.prems by (auto split: if_splits)
    then obtain u v where uv: "xs = u @ v" "\<forall>y\<in>set u. P y"
      "k (if u = [] then Some x else Some (last u), v, c) = Some res"
      using Cons.IH by blast
    have "x # xs = (x # u) @ v \<and> (\<forall>y\<in>set (x # u). P y) \<and>
      k (if x # u = [] then p else Some (last (x # u)), v, c) = Some res"
      using uv px by auto
    then show ?thesis by blast
  qed
qed

lemma star_lazy_complete:
  "star_lazy P k p c s = None \<Longrightarrow> s = u @ v \<Longrightarrow> \<forall>x\<in>set u. P x \<Longrightarrow>
   k (if u = [] then p else Some (last u), v, c) = None"
proof (induction s arbitrary: p u)
  case Nil
  then show ?case by auto
next
  case (Cons x xs)
  show ?case
  proof (cases u)
    case Nil
    then show ?thesis using Cons.prems by (auto split: if_splits option.splits)
  next
    case (Cons y u')
    then have "P x" "xs = u' @ v" "y = x" "\<forall>x\<in>set u'. P x" using Cons.prems by auto
    moreover have "star_lazy P k (Some x) c xs = None"
      using Cons.prems(1) \<open>P x\<close> by (auto split: option.splits)
    ultimately have "k (if u' = [] then Some x else Some (last u'), v, c) = None"
      using Cons.IH by blast
    then show ?thesis using Cons \<open>y = x\<close> by auto
  qed
qed

lemma rx_match_sound:
  "rx_match r st k = Some res \<Longrightarrow> \<exists>st'. rx_reach r st st' \<and> k st' = Some res"
proof (induction r arbitrary: st k)
  case Eps
  then show ?case by auto
next
  case (Cls P)
  then show ?case by (cases st) (auto split: list.splits if_splits)
next
  case (Star P)
  obtain p s c where st: "st = (p, s, c)" by (cases st) auto
  with Star have "star_greedy P k p c s = Some res" by simp
  from star_greedy_sound[OF this] obtain u v where
    "s = u @ v" "\<forall>x\<in>set u. P x" "k (if u = [] then p else Some (last u), v, c) = Some res"
    by blast
  then have "rx_reach (Star P) st (if u = [] then p else Some (last u), v, c)
     \<and> k (if u = [] then p else Some (last u), v, c) = Some res"
    unfolding st rx_reach.simps by blast
  then show ?case by blast
next
  case (LazyStar P)
  obtain p s c where st: "st = (p, s, c)" by (cases st) auto
  with LazyStar have "star_lazy P k p c s = Some res" by simp
  from star_lazy_sound[OF this] obtain u v where
    "s = u @ v" "\<forall>x\<in>set u. P x" "k (if u = [] then p else Some (last u), v, c) = Some res"
    by blast
  then have "rx_reach (LazyStar P) st (if u = [] then p else Some (last u), v, c)
     \<and> k (if u = [] then p else Some (last u), v, c) = Some res"
    unfolding st rx_reach.simps by blast
  then show ?case by blast
next
  case WordB
  then show ?case by (cases st) (auto split: if_splits)
next
  case (Seq a b)
  from Seq.prems have "rx_match a st (\<lambda>st'. rx_match b st' k) = Some res" by simp
  then obtain m where m: "rx_reach a st m" "rx_match b m k = Some res"
    using Seq.IH(1) by blast
  then obtain st' where st': "rx_reach b m st'" "k st' = Some res"
    using Seq.IH(2) by blast
  have "rx_reach (Seq a b) st st'" unfolding rx_reach.simps using m(1) st'(1) by blast
  then show ?case using st'(2) by blast
next
  case (Alt a b)
  from Alt.prems consider "rx_match a st k = Some res" | "rx_match b st k = Some res"
    by (auto split: option.splits)
  then show ?case
  proof cases
    case 1
    then obtain st' where "rx_reach a st st'" "k st' = Some res" using Alt.IH(1) by blast
    then have "rx_reach (Alt a b) st st' \<and> k st' = Some res" unfolding rx_reach.simps by blast
    then show ?thesis by blast
  next
    case 2
    then obtain st' where "rx_reach b st st'" "k st' = Some res" using Alt.IH(2) by blast
    then have "rx_reach (Alt a b) st st' \<and> k st' = Some res" unfolding rx_reach.simps by blast
    then show ?thesis by blast
  qed
next
  case (Grp a)
  obtain p s c where st: "st = (p, s, c)" by (cases st) auto
  with Grp.prems have
    "rx_match a (p, s, c) (\<lambda>(p', s', c'). k (p', s', Some (take (length s - length s') s))) = Some res"
    by simp
  then obtain m where m: "rx_reach a (p, s, c) m"
     "(\<lambda>(p', s', c'). k (p', s', Some (take (length s - length s') s))) m = Some res"
    using Grp.IH by blast
  obtain p' s' c' where m': "m = (p', s', c')" by (cases m) auto
  have "rx_reach (Grp a) st (p', s', Some (take (length s - length s') s))"
    unfolding st rx_reach.simps using m(1) m' by blast
  moreover have "k (p', s', Some (take (length s - length s') s)) = Some res"
    using m(2) m' by simp
  ultimately show ?case by blast
qed

lemma rx_match_complete:
  "rx_match r st k = None \<Longrightarrow> rx_reach r st st' \<Longrightarrow> k st' = None"
proof (induction r arbitrary: st k st')
  case Eps
  then show ?case by auto
next
  case (Cls P)
  then show ?case by (cases st) (auto split: list.splits if_splits)
next
  case (Star P)
  obtain p s c where st: "st = (p, s, c)" by (cases st) auto
  with Star have n: "star_greedy P k p c s = None" by simp
  from Star.prems(2) obtain u v where uv:
    "s = u @ v" "\<forall>x\<in>set u. P x" "st' = (if u = [] then p else Some (last u), v, c)"
    unfolding st rx_reach.simps by blast
  show ?case unfolding uv(3) by (rule star_greedy_complete[OF n uv(1) uv(2)])
next
  case (LazyStar P)
  obtain p s c where st: "st = (p, s, c)" by (cases st) auto
  with LazyStar have n: "star_lazy P k p c s = None" by simp
  from LazyStar.prems(2) obtain u v where uv:
    "s = u @ v" "\<forall>x\<in>set u. P x" "st' = (if u = [] then p else Some (last u), v, c)"
    unfolding st rx_reach.simps by blast
  show ?case unfolding uv(3) by (rule star_lazy_complete[OF n uv(1) uv(2)])
next
  case WordB
  then show ?case by (cases st) (auto split: if_splits)
next
  case (Seq a b)
  from Seq.prems(2) obtain m where m: "rx_reach a st m" "rx_reach b m st'"
    unfolding rx_reach.simps by blast
  from Seq.prems have "rx_match a st (\<lambda>st'. rx_match b st' k) = None" by simp
  then have "rx_match b m k = None" using Seq.IH(1) m(1) by blast
  then show ?case using Seq.IH(2) m(2) by blast
next
  case (Alt a b)
  from Alt.prems(1) have n: "rx_match a st k = None" "rx_match b st k = None"
    by (auto split: option.splits)
  from Alt.prems(2) consider "rx_reach a st st'" | "rx_reach b st st'"
    unfolding rx_reach.simps by blast
  then show ?case
  proof cases
    case 1
    then show ?thesis using Alt.IH(1) n(1) by blast
  next
    case 2
    then show ?thesis using Alt.IH(2) n(2) by blast
  qed
next
  case (Grp a)
  obtain p s c where st: "st = (p, s, c)" by (cases st) auto
  from Grp.prems(2) obtain p' s' c' where r: "rx_reach a (p, s, c) (p', s', c')"
    "st' = (p', s', Some (take (length s - length s') s))"
    unfolding st rx_reach.simps by blast
  from Grp.prems st have
    "rx_match a (p, s, c) (\<lambda>(p', s', c'). k (p', s', Some (take (length s - length s') s))) = None"
    by simp
  then have "(\<lambda>(p', s', c'). k (p', s', Some (take (length s - length s') s))) (p', s', c') = None"
    using Grp.IH r(1) by blast
  then show ?case using r(2) by simp
qed

section \<open>The detector never raises an exception\<close>

lemma rx_reach_group:
  "rx_reach r st st' \<Longrightarrow> sets_group r \<or> snd (snd st) \<noteq> None \<Longrightarrow> snd (snd st') \<noteq> None"
proof (induction r arbitrary: st st')
  case (Seq a b)
  from Seq.prems(1) obtain m where m: "rx_reach a st m" "rx_reach b m st'"
    unfolding rx_reach.simps by blast
  show ?case
  proof (cases "sets_group a \<or> snd (snd st) \<noteq> None")
    case True
    then have "snd (snd m) \<noteq> None" using Seq.IH(1) m(1) by blast
    then show ?thesis using Seq.IH(2) m(2) by blast
  next
    case False
    then have "sets_group b" using Seq.prems(2) by simp
    then show ?thesis using Seq.IH(2) m(2) by blast
  qed
next
  case (Alt a b)
  from Alt.prems(1) consider "rx_reach a st st'" | "rx_reach b st st'"
    unfolding rx_reach.simps by blast
  then show ?case
  proof cases
    case 1
    have "sets_group a \<or> snd (snd st) \<noteq> None" using Alt.prems(2) by auto
    then show ?thesis by (rule Alt.IH(1)[OF 1])
  next
    case 2
    have "sets_group b \<or> snd (snd st) \<noteq> None" using Alt.prems(2) by auto
    then show ?thesis by (rule Alt.IH(2)[OF 2])
  qed
qed (cases st; cases st'; auto split: if_splits)+

lemma exec_at_group:
  assumes "exec_at r p s = Some (p', s', g)" "sets_group r"
  shows "g \<noteq> None"
proof -
  from assms(1) have "rx_match r (p, s, None) Some = Some (p', s', g)" by (simp add: exec_at_def)
  from rx_match_sound[OF this] have "rx_reach r (p, s, None) (p', s', g)" by auto
  from rx_reach_group[OF this] assms(2) show ?thesis by simp
qed

lemma search_from_exec:
  "search_from r p s = Some (m, g) \<Longrightarrow> \<exists>q t q' t'. exec_at r q t = Some (q', t', g)"
proof (induction s arbitrary: p)
  case Nil
  then show ?case by (auto split: option.splits)
next
  case (Cons x xs)
  show ?case
  proof (cases "exec_at r p (x # xs)")
    case None
    then have "search_from r (Some x) xs = Some (m, g)" using Cons.prems by simp
    then show ?thesis using Cons.IH by blast
  next
    case (Some st)
    obtain q' t' c where "st = (q', t', c)" by (cases st) auto
    then have "exec_at r p (x # xs) = Some (q', t', g)" using Some Cons.prems by auto
    then show ?thesis by blast
  qed
qed

lemma rx_search_group:
  "rx_search r s = Some (m, g) \<Longrightarrow> sets_group r \<Longrightarrow> g \<noteq> None"
  unfolding rx_search_def using search_from_exec exec_at_group by blast

lemma sets_group_alwaysMatch: "sets_group rx_alwaysMatch"
  by (simp add: rx_alwaysMatch_def)

lemma verilog_sensitivity_total: "\<exists>found. verilog_sensitivity code = Inr found"
proof (cases "rx_search rx_alwaysMatch code")
  case None
  then show ?thesis by (simp add: verilog_sensitivity_def)
next
  case (Some mg)
  obtain m g where mg: "mg = (m, g)" by (cases mg) auto
  with Some have "g \<noteq> None" using rx_search_group sets_group_alwaysMatch by blast
  then obtain sl where "g = Some sl" by auto
  then show ?thesis using Some mg by (simp add: verilog_sensitivity_def Let_def)
qed

lemma exec_assign_op_empty: "exec_at rx_assign_op None [] = None"
  by (simp add: exec_at_def rx_assign_op_def Opt_def Chr_def)

lemma rx_split_assign_op_nonempty: "rx_split rx_assign_op a \<noteq> []"
  by (simp add: rx_split_def exec_assign_op_empty split_loop_nonempty)

lemma count_assignments_eq:
  "count_assignments as m = Inr (fold (\<lambda>a m. bump m (target_of a)) as m)"
proof (induction as arbitrary: m)
  case Nil
  then show ?case by simp
next
  case (Cons a as)
  obtain piece pieces where "rx_split rx_assign_op a = piece # pieces"
    using rx_split_assign_op_nonempty[of a] by (cases "rx_split rx_assign_op a") auto
  then show ?case using Cons.IH by (simp add: target_of_def bump_def Let_def)
qed

lemma verilog_multiple_total: "\<exists>found. verilog_multiple code = Inr found"
  by (simp add: verilog_multiple_def Let_def count_assignments_eq)

lemma verilog_rules_total: "\<exists>found. verilog_rules code = Inr found"
proof -
  obtain a b where "verilog_sensitivity code = Inr a" "verilog_multiple code = Inr b"
    using verilog_sensitivity_total verilog_multiple_total by blast
  then show ?thesis by (simp add: verilog_rules_def)
qed

lemma analyzeVerilog_total: "\<exists>r. analyzeVerilog code language = Inr r"
proof (cases language)
  case Verilog
  obtain found where "verilog_rules code = Inr found" using verilog_rules_total by blast
  then show ?thesis using Verilog by (simp add: analyzeVerilog_def Let_def)
next
  case Vhdl
  then show ?thesis by (simp add: analyzeVerilog_def Let_def)
qed

text \<open>
  C2. For every source string and either language the detector returns a result and
  raises no exception; for the empty Verilog source the result has no issue, the total 0
  and the fixed summary.
\<close>

theorem analyze_never_throws:
  "(\<exists>r. analyzeVerilog code language = Inr r)
   \<and> analyzeVerilog [] Verilog =
       Inr \<lparr>totalIssues = 0, issues = [], summary = ''No issues found. Code looks good!''\<rparr>"
proof
  show "\<exists>r. analyzeVerilog code language = Inr r" by (rule analyzeVerilog_total)
  show "analyzeVerilog [] Verilog =
       Inr \<lparr>totalIssues = 0, issues = [], summary = ''No issues found. Code looks good!''\<rparr>"
    by code_simp
qed

section \<open>The result record and the summary\<close>

lemma severity_counts_total:
  "length iss = count_severity Error iss + count_severity Warning iss + count_severity Info iss"
proof (induction iss)
  case Nil
  then show ?case by (simp add: count_severity_def)
next
  case (Cons i iss)
  then show ?case by (cases "severity i") (simp_all add: count_severity_def)
qed

lemma analyzeVerilog_result:
  "analyzeVerilog code language = Inr r \<Longrightarrow>
   totalIssues r = length (issues r) \<and> summary r = generateSummary (issues r)"
  by (auto simp: analyzeVerilog_def Let_def split: sum.splits)

lemma digit_char: "d < 10 \<Longrightarrow> of_char (''0123456789'' ! d) = (48::nat) + d"
proof -
  assume "d < 10"
  then have "d = 0 \<or> d = 1 \<or> d = 2 \<or> d = 3 \<or> d = 4 \<or> d = 5 \<or> d = 6 \<or> d = 7 \<or> d = 8 \<or> d = 9"
    by arith
  then show ?thesis by (elim disjE) simp_all
qed

lemma digit_char_in: "d < 10 \<Longrightarrow> ''0123456789'' ! d \<in> set ''0123456789''"
  by (rule nth_mem) simp

lemma show_nat_value: "digits_value (show_nat n) = n"
proof (induction n rule: show_nat.induct)
  case (1 n)
  show ?case
  proof (cases "n < 10")
    case True
    then show ?thesis by (subst show_nat.simps) (simp add: digits_value_def digit_char)
  next
    case False
    then have IH: "digits_value (show_nat (n div 10)) = n div 10" using 1 by simp
    have "n mod 10 < 10" by simp
    then have d: "of_char (''0123456789'' ! (n mod 10)) = (48::nat) + n mod 10"
      by (rule digit_char)
    have "digits_value (show_nat n) = 10 * digits_value (show_nat (n div 10)) + n mod 10"
      using False d by (subst show_nat.simps) (simp add: digits_value_def)
    then show ?thesis using IH by simp
  qed
qed

lemma show_nat_digits: "set (show_nat n) \<subseteq> set ''0123456789''"
proof (induction n rule: show_nat.induct)
  case (1 n)
  show ?case
  proof (cases "n < 10")
    case True
    then show ?thesis using digit_char_in[of n] by (subst show_nat.simps) simp
  next
    case False
    have "n mod 10 < 10" by simp
    then have "''0123456789'' ! (n mod 10) \<in> set ''0123456789''" by (rule digit_char_in)
    moreover have "set (show_nat (n div 10)) \<subseteq> set ''0123456789''" using 1 False by simp
    ultimately show ?thesis using False by (subst show_nat.simps) simp
  qed
qed

lemma generateSummary_template:
  "generateSummary iss =
   summary_template (count_severity Error iss) (count_severity Warning iss) (count_severity Info iss)"
proof -
  let ?e = "count_severity Error iss" and ?w = "count_severity Warning iss"
    and ?i = "count_severity Info iss"
  have len: "length iss = ?e + ?w + ?i" by (rule severity_counts_total)
  show ?thesis
  proof (cases "?e = 0 \<and> ?w = 0 \<and> ?i = 0")
    case True
    then show ?thesis using len by (simp add: generateSummary_def summary_template_def)
  next
    case False
    then have "length iss \<noteq> 0" using len by simp
    then have g: "generateSummary iss = ''Found '' @ show_nat (?e + ?w + ?i) @ '' issue(s): '' @
       join '', '' ((if ?e > 0 then [show_nat ?e @ '' error(s)''] else [])
                   @ (if ?w > 0 then [show_nat ?w @ '' warning(s)''] else [])
                   @ (if ?i > 0 then [show_nat ?i @ '' info''] else []))"
      using len by (simp add: generateSummary_def Let_def count_severity_def)
    have j: "join '', '' ((if 0 < e then [a] else []) @ (if 0 < w then [b] else [])
                          @ (if 0 < i then [c] else []))
        = (if 0 < e then a else []) @ (if 0 < e \<and> 0 < w + i then '', '' else [])
          @ (if 0 < w then b else []) @ (if 0 < w \<and> 0 < i then '', '' else [])
          @ (if 0 < i then c else [])" for e w i :: nat and a b c :: string
      by (cases "0 < e"; cases "0 < w"; cases "0 < i") simp_all
    show ?thesis unfolding g j using False by (simp add: summary_template_def)
  qed
qed

lemma template_examples:
  "summary_template 2 0 1 = ''Found 3 issue(s): 2 error(s), 1 info''"
  "summary_template 12 3 0 = ''Found 15 issue(s): 12 error(s), 3 warning(s)''"
  "summary_template 1 1 1 = ''Found 3 issue(s): 1 error(s), 1 warning(s), 1 info''"
  "summary_template 0 0 0 = ''No issues found. Code looks good!''"
  by (simp_all add: summary_template_def show_nat.simps)

lemma summary_example:
  "analyzeVerilog (''a = 1; a = 2; if (a) '' @ replicate 121 CHR '';'') Verilog =
     Inr \<lparr>totalIssues = 3,
          issues =
            [\<lparr>type = ''latch_inference'', severity = Warning, line = Some 1,
               message = ''Incomplete if statement may cause latch inference'',
               suggestion = ''Add an else clause or default assignment before the if statement''\<rparr>,
             \<lparr>type = ''multiple_assignments'', severity = Error, line = None,
               message = ''Signal '' @ [CHR 0x27] @ ''a'' @ [CHR 0x27] @ '' assigned multiple times'',
               suggestion = ''Ensure each signal is assigned in only one always block or assign statement''\<rparr>,
             \<lparr>type = ''style'', severity = Info, line = None,
               message = ''1 lines exceed 120 characters'',
               suggestion = ''Consider breaking long lines for better readability''\<rparr>],
          summary = ''Found 3 issue(s): 1 error(s), 1 warning(s), 1 info''\<rparr>"
  by code_simp

text \<open>
  C3. For every source and language the result's \<open>totalIssues\<close> is the length of
  its issue sequence, and its summary is the template of the specification applied to
  the numbers of issues of severity error, warning and info (\<open>summary_template\<close>):
  the fixed message when there is no issue, else the total followed by the counts that
  are not zero, joined by a comma and a space, in the order error, warning, info.
  \<open>generateSummary\<close> is that template on every issue sequence. The numbers are
  printed as decimal numerals: the digits of \<open>show_nat n\<close> denote \<open>n\<close>.
\<close>

theorem summary_from_severity_counts:
  "(\<exists>r. analyzeVerilog code language = Inr r
       \<and> totalIssues r = length (issues r)
       \<and> summary r = summary_template (count_severity Error (issues r))
                        (count_severity Warning (issues r)) (count_severity Info (issues r)))
   \<and> generateSummary iss = summary_template (count_severity Error iss)
                        (count_severity Warning iss) (count_severity Info iss)
   \<and> digits_value (show_nat n) = n \<and> set (show_nat n) \<subseteq> set ''0123456789''
   \<and> summary_template 0 0 0 = ''No issues found. Code looks good!''
   \<and> summary_template 2 0 1 = ''Found 3 issue(s): 2 error(s), 1 info''
   \<and> summary_template 12 3 0 = ''Found 15 issue(s): 12 error(s), 3 warning(s)''
   \<and> summary_template 1 1 1 = ''Found 3 issue(s): 1 error(s), 1 warning(s), 1 info''"
proof -
  obtain r where r: "analyzeVerilog code language = Inr r" using analyzeVerilog_total by blast
  from analyzeVerilog_result[OF r] have
    "\<exists>r. analyzeVerilog code language = Inr r
       \<and> totalIssues r = length (issues r)
       \<and> summary r = summary_template (count_severity Error (issues r))
                        (count_severity Warning (issues r)) (count_severity Info (issues r))"
    using r generateSummary_template by auto
  then show ?thesis
    using generateSummary_template[of iss] show_nat_value[of n] show_nat_digits[of n]
      template_examples by blast
qed

text \<open>A source with one issue of each severity.\<close>

theorem summary_from_severity_counts_witness:
  "\<exists>r. analyzeVerilog (''a = 1; a = 2; if (a) '' @ replicate 121 CHR '';'') Verilog = Inr r
       \<and> totalIssues r = 3
       \<and> map severity (issues r) = [Warning, Error, Info]
       \<and> summary r = ''Found 3 issue(s): 1 error(s), 1 warning(s), 1 info''"
proof -
  from summary_from_severity_counts[of "''a = 1; a = 2; if (a) '' @ replicate 121 CHR '';''" Verilog]
  obtain r where r: "analyzeVerilog (''a = 1; a = 2; if (a) '' @ replicate 121 CHR '';'') Verilog = Inr r"
    by blast
  then show ?thesis unfolding summary_example by auto
qed

section \<open>VHDL analyses\<close>

lemma analyze_vhdl:
  "analyzeVerilog code Vhdl =
     Inr \<lparr>totalIssues = length (vhdl_latch code @ vhdl_mixed code @ style_rule code),
          issues = vhdl_latch code @ vhdl_mixed code @ style_rule code,
          summary = generateSummary (vhdl_latch code @ vhdl_mixed code @ style_rule code)\<rparr>"
  by (simp add: analyzeVerilog_def vhdl_rules_def Let_def)

lemma vhdl_kinds:
  "i \<in> set (vhdl_latch code @ vhdl_mixed code @ style_rule code) \<Longrightarrow>
   (type i, severity i) \<in> {(''latch_inference'', Warning), (''mixed_variable_signal'', Info), (''style'', Info)}"
  by (auto simp: vhdl_latch_def vhdl_mixed_def style_rule_def Let_def split: if_splits)

lemma vhdl_latch_shape:
  "vhdl_latch code = [] \<or> (\<exists>l. vhdl_latch code = [l] \<and> severity l = Warning)"
  by (simp add: vhdl_latch_def)

lemma vhdl_mixed_shape:
  "vhdl_mixed code = [] \<or> (\<exists>m. vhdl_mixed code = [m] \<and> severity m = Info)"
  by (simp add: vhdl_mixed_def Let_def)

lemma style_rule_shape:
  "style_rule code = [] \<or> (\<exists>s. style_rule code = [s] \<and> severity s = Info)"
  by (simp add: style_rule_def Let_def)

lemma three_rule_summaries:
  assumes "a = [] \<or> (\<exists>l. a = [l] \<and> severity l = Warning)"
    and "b = [] \<or> (\<exists>m. b = [m] \<and> severity m = Info)"
    and "c = [] \<or> (\<exists>s. c = [s] \<and> severity s = Info)"
  shows "generateSummary (a @ b @ c) \<in> set
     [''No issues found. Code looks good!'',
      ''Found 1 issue(s): 1 warning(s)'',
      ''Found 1 issue(s): 1 info'',
      ''Found 2 issue(s): 1 warning(s), 1 info'',
      ''Found 2 issue(s): 2 info'',
      ''Found 3 issue(s): 1 warning(s), 2 info'']"
  using assms
  by (elim disjE exE conjE) (simp_all add: generateSummary_def show_nat.simps)

lemma vhdl_summary_no_error:
  "\<not> str_includes (generateSummary (vhdl_latch code @ vhdl_mixed code @ style_rule code)) ''error''"
proof -
  let ?s = "generateSummary (vhdl_latch code @ vhdl_mixed code @ style_rule code)"
  have "?s \<in> set
     [''No issues found. Code looks good!'',
      ''Found 1 issue(s): 1 warning(s)'',
      ''Found 1 issue(s): 1 info'',
      ''Found 2 issue(s): 1 warning(s), 1 info'',
      ''Found 2 issue(s): 2 info'',
      ''Found 3 issue(s): 1 warning(s), 2 info'']"
    by (rule three_rule_summaries[OF vhdl_latch_shape vhdl_mixed_shape style_rule_shape])
  then consider "?s = ''No issues found. Code looks good!''"
    | "?s = ''Found 1 issue(s): 1 warning(s)''"
    | "?s = ''Found 1 issue(s): 1 info''"
    | "?s = ''Found 2 issue(s): 1 warning(s), 1 info''"
    | "?s = ''Found 2 issue(s): 2 info''"
    | "?s = ''Found 3 issue(s): 1 warning(s), 2 info''"
    unfolding list.set by blast
  then show ?thesis
  proof cases
    case 1 then show ?thesis by simp
  next
    case 2 then show ?thesis by simp
  next
    case 3 then show ?thesis by simp
  next
    case 4 then show ?thesis by simp
  next
    case 5 then show ?thesis by simp
  next
    case 6 then show ?thesis by simp
  qed
qed

text \<open>
  C10. For every source, the VHDL analysis returns only issues of kind
  \<open>latch_inference\<close> with severity warning, \<open>mixed_variable_signal\<close> with severity
  info, or \<open>style\<close> with severity info; none has severity error, and the summary does
  not contain the word \<open>error\<close>, so it shows no error count.
\<close>

theorem vhdl_issue_kinds:
  "\<exists>r. analyzeVerilog code Vhdl = Inr r
       \<and> (\<forall>i\<in>set (issues r).
             (type i, severity i) \<in> {(''latch_inference'', Warning),
                                       (''mixed_variable_signal'', Info), (''style'', Info)})
       \<and> count_severity Error (issues r) = 0
       \<and> \<not> str_includes (summary r) ''error''"
proof -
  let ?is = "vhdl_latch code @ vhdl_mixed code @ style_rule code"
  let ?r = "\<lparr>totalIssues = length ?is, issues = ?is, summary = generateSummary ?is\<rparr>"
  have kinds: "\<forall>i\<in>set ?is. (type i, severity i) \<in> {(''latch_inference'', Warning),
                                       (''mixed_variable_signal'', Info), (''style'', Info)}"
    using vhdl_kinds by blast
  have "severity i \<noteq> Error" if "i \<in> set ?is" for i
    using vhdl_kinds[OF that] by auto
  then have "\<forall>i\<in>set ?is. severity i \<noteq> Error" by blast
  then have "count_severity Error ?is = 0" by (simp add: count_severity_def filter_empty_conv)
  then have "analyzeVerilog code Vhdl = Inr ?r
       \<and> (\<forall>i\<in>set (issues ?r).
             (type i, severity i) \<in> {(''latch_inference'', Warning),
                                       (''mixed_variable_signal'', Info), (''style'', Info)})
       \<and> count_severity Error (issues ?r) = 0
       \<and> \<not> str_includes (summary ?r) ''error''"
    using kinds vhdl_summary_no_error[of code] analyze_vhdl[of code] by simp
  then show ?thesis by blast
qed

text \<open>A VHDL source with an issue: a process without an alternative branch.\<close>

theorem vhdl_issue_kinds_witness:
  "\<exists>r i. analyzeVerilog ''process (clk)'' Vhdl = Inr r \<and> i \<in> set (issues r)
       \<and> (type i, severity i) = (''latch_inference'', Warning)
       \<and> count_severity Error (issues r) = 0"
proof -
  from vhdl_issue_kinds[of "''process (clk)''"] obtain r where
    r: "analyzeVerilog ''process (clk)'' Vhdl = Inr r" "count_severity Error (issues r) = 0"
    by blast
  have "analyzeVerilog ''process (clk)'' Vhdl =
     Inr \<lparr>totalIssues = 1,
          issues = [\<lparr>type = ''latch_inference'', severity = Warning, line = None,
            message = ''Incomplete conditional assignment in process may cause latch'',
            suggestion = ''Ensure all signals have default assignments or complete if-else chains''\<rparr>],
          summary = ''Found 1 issue(s): 1 warning(s)''\<rparr>"
    by code_simp
  with r(1) have "issues r = [\<lparr>type = ''latch_inference'', severity = Warning, line = None,
            message = ''Incomplete conditional assignment in process may cause latch'',
            suggestion = ''Ensure all signals have default assignments or complete if-else chains''\<rparr>]"
    by auto
  then show ?thesis using r by auto
qed

section \<open>Verilog: latch inference\<close>

lemma findIndex_first:
  "\<exists>x\<in>set xs. P x \<Longrightarrow>
   \<exists>n. findIndex P xs = int n \<and> n < length xs \<and> P (xs ! n) \<and> (\<forall>j<n. \<not> P (xs ! j))"
proof (induction xs)
  case Nil
  then show ?case by simp
next
  case (Cons x xs)
  show ?case
  proof (cases "P x")
    case True
    then have "findIndex P (x # xs) = int 0 \<and> 0 < length (x # xs) \<and> P ((x # xs) ! 0)
        \<and> (\<forall>j<0. \<not> P ((x # xs) ! j))" by simp
    then show ?thesis by blast
  next
    case False
    then have "\<exists>x\<in>set xs. P x" using Cons.prems by auto
    then obtain n where n: "findIndex P xs = int n" "n < length xs" "P (xs ! n)"
      "\<forall>j<n. \<not> P (xs ! j)" using Cons.IH by blast
    have "\<forall>j<Suc n. \<not> P ((x # xs) ! j)"
    proof (intro allI impI)
      fix j assume "j < Suc n"
      then show "\<not> P ((x # xs) ! j)" using False n(4) by (cases j) auto
    qed
    then have "findIndex P (x # xs) = int (Suc n) \<and> Suc n < length (x # xs)
        \<and> P ((x # xs) ! Suc n) \<and> (\<forall>j<Suc n. \<not> P ((x # xs) ! j))"
      using False n by (simp add: Let_def)
    then show ?thesis by blast
  qed
qed

lemma split_lines_starts_with:
  "starts_with s p \<Longrightarrow> CHR 0x0A \<notin> set p \<Longrightarrow>
   \<exists>l ls. split_lines s = l # ls \<and> starts_with l p"
proof (induction s p rule: starts_with.induct)
  case (1 s)
  then show ?case using split_lines_nonempty[of s] by (cases "split_lines s") auto
next
  case (2 p ps)
  then show ?case by simp
next
  case (3 x xs p ps)
  then obtain l ls where "split_lines xs = l # ls" "starts_with l ps" by auto
  then show ?case using 3 by auto
qed

lemma starts_with_includes: "starts_with l p \<Longrightarrow> str_includes l p"
  by (cases l; cases p) auto

lemma split_lines_includes:
  "str_includes s p \<Longrightarrow> CHR 0x0A \<notin> set p \<Longrightarrow> \<exists>l\<in>set (split_lines s). str_includes l p"
proof (induction s)
  case Nil
  then show ?case by simp
next
  case (Cons x xs)
  obtain l0 ls where sl: "split_lines xs = l0 # ls"
    using split_lines_nonempty[of xs] by (cases "split_lines xs") auto
  from Cons.prems(1) consider "starts_with (x # xs) p" | "str_includes xs p" by auto
  then show ?case
  proof cases
    case 1
    then obtain l ls' where l: "split_lines (x # xs) = l # ls'" "starts_with l p"
      using split_lines_starts_with Cons.prems(2) by blast
    have "str_includes l p" by (rule starts_with_includes[OF l(2)])
    then show ?thesis using l(1) by auto
  next
    case 2
    then obtain l where l: "l \<in> set (split_lines xs)" "str_includes l p"
      using Cons.IH Cons.prems(2) by blast
    show ?thesis
    proof (cases "x = CHR 0x0A")
      case True
      then show ?thesis using l by auto
    next
      case False
      show ?thesis
      proof (cases "l = l0")
        case True
        then have "str_includes (x # l0) p" using l(2) by simp
        then show ?thesis using False sl by auto
      next
        case False
        then have "l \<in> set ls" using l(1) sl by auto
        then show ?thesis using \<open>x \<noteq> CHR 0x0A\<close> sl l(2) by auto
      qed
    qed
  qed
qed

subsection \<open>The issues of a Verilog analysis, rule by rule\<close>

lemma analyze_verilog_issues:
  "\<exists>r sens mult. analyzeVerilog code Verilog = Inr r
     \<and> verilog_sensitivity code = Inr sens \<and> verilog_multiple code = Inr mult
     \<and> issues r = verilog_latch code @ verilog_blocking code @ sens
                    @ verilog_case_default code @ mult @ verilog_cdc code @ style_rule code"
proof -
  obtain sens mult where "verilog_sensitivity code = Inr sens" "verilog_multiple code = Inr mult"
    using verilog_sensitivity_total verilog_multiple_total by blast
  then show ?thesis by (simp add: analyzeVerilog_def verilog_rules_def Let_def)
qed

lemma issues_of_type_append [simp]:
  "issues_of_type t (xs @ ys) = issues_of_type t xs @ issues_of_type t ys"
  by (simp add: issues_of_type_def)

lemma issues_of_type_other: "\<forall>i\<in>set xs. type i \<noteq> t \<Longrightarrow> issues_of_type t xs = []"
  by (simp add: issues_of_type_def filter_empty_conv)

lemma issues_of_type_same: "\<forall>i\<in>set xs. type i = t \<Longrightarrow> issues_of_type t xs = xs"
  by (simp add: issues_of_type_def filter_id_conv)

lemma type_verilog_latch: "\<forall>i\<in>set (verilog_latch code). type i = ''latch_inference''"
  by (simp add: verilog_latch_def Let_def)

lemma type_verilog_blocking: "\<forall>i\<in>set (verilog_blocking code). type i = ''blocking_in_sequential''"
  by (simp add: verilog_blocking_def)

lemma type_verilog_sensitivity:
  "verilog_sensitivity code = Inr sens \<Longrightarrow> \<forall>i\<in>set sens. type i = ''incomplete_sensitivity''"
  by (auto simp: verilog_sensitivity_def Let_def split: option.splits if_splits)

lemma type_verilog_case_default: "\<forall>i\<in>set (verilog_case_default code). type i = ''no_case_default''"
  by (simp add: verilog_case_default_def)

lemma type_verilog_multiple:
  "verilog_multiple code = Inr mult \<Longrightarrow> \<forall>i\<in>set mult. type i = ''multiple_assignments''"
  by (auto simp: verilog_multiple_def Let_def multiple_issue_def split: if_splits sum.splits)

lemma type_verilog_cdc: "\<forall>i\<in>set (verilog_cdc code). type i = ''clock_domain_crossing''"
  by (simp add: verilog_cdc_def Let_def)

lemma type_style_rule: "\<forall>i\<in>set (style_rule code). type i = ''style''"
  by (simp add: style_rule_def Let_def)

lemma verilog_issues_by_type:
  "\<exists>r mult. analyzeVerilog code Verilog = Inr r \<and> verilog_multiple code = Inr mult
     \<and> issues_of_type ''latch_inference'' (issues r) = verilog_latch code
     \<and> issues_of_type ''blocking_in_sequential'' (issues r) = verilog_blocking code
     \<and> issues_of_type ''multiple_assignments'' (issues r) = mult
     \<and> issues_of_type ''clock_domain_crossing'' (issues r) = verilog_cdc code"
proof -
  obtain r sens mult where r: "analyzeVerilog code Verilog = Inr r"
    "verilog_sensitivity code = Inr sens" "verilog_multiple code = Inr mult"
    "issues r = verilog_latch code @ verilog_blocking code @ sens
                    @ verilog_case_default code @ mult @ verilog_cdc code @ style_rule code"
    using analyze_verilog_issues by blast
  note ty = type_verilog_latch[of code] type_verilog_blocking[of code]
    type_verilog_sensitivity[OF r(2)] type_verilog_case_default[of code]
    type_verilog_multiple[OF r(3)] type_verilog_cdc[of code] type_style_rule[of code]
  have a: "issues_of_type ''latch_inference'' (issues r) = verilog_latch code"
    unfolding r(4) issues_of_type_append
    using ty by (simp add: issues_of_type_other issues_of_type_same)
  have b: "issues_of_type ''blocking_in_sequential'' (issues r) = verilog_blocking code"
    unfolding r(4) issues_of_type_append
    using ty by (simp add: issues_of_type_other issues_of_type_same)
  have c: "issues_of_type ''multiple_assignments'' (issues r) = mult"
    unfolding r(4) issues_of_type_append
    using ty by (simp add: issues_of_type_other issues_of_type_same)
  have d: "issues_of_type ''clock_domain_crossing'' (issues r) = verilog_cdc code"
    unfolding r(4) issues_of_type_append
    using ty by (simp add: issues_of_type_other issues_of_type_same)
  from r(1) r(3) a b c d show ?thesis by blast
qed

subsection \<open>The latch rule\<close>

lemma verilog_latch_line:
  assumes "str_includes code ''if''" "\<not> str_includes code ''else''"
  shows "\<exists>n. verilog_latch code = [latch_issue (int n + 1)]
     \<and> n < length (split_lines code) \<and> str_includes (split_lines code ! n) ''if''
     \<and> (\<forall>j<n. \<not> str_includes (split_lines code ! j) ''if'')"
proof -
  have "\<exists>l\<in>set (split_lines code). str_includes l ''if''"
    using split_lines_includes[OF assms(1)] by simp
  from findIndex_first[of "split_lines code" "\<lambda>l. str_includes l ''if''", OF this]
  obtain n where n: "findIndex (\<lambda>l. str_includes l ''if'') (split_lines code) = int n"
    "n < length (split_lines code)" "str_includes (split_lines code ! n) ''if''"
    "\<forall>j<n. \<not> str_includes (split_lines code ! j) ''if''" by blast
  have "verilog_latch code = [latch_issue (int n + 1)]"
    using assms n(1) by (simp add: verilog_latch_def latch_issue_def Let_def)
  then show ?thesis using n by blast
qed

subsection \<open>The line of the latch warning\<close>

lemma leftmost_occurrence:
  assumes "\<exists>u v. s = u @ p @ v"
  shows "\<exists>u v. s = u @ p @ v \<and> (\<forall>u' v'. s = u' @ p @ v' \<longrightarrow> length u \<le> length u')"
proof -
  let ?Q = "\<lambda>n. \<exists>u v. s = u @ p @ v \<and> length u = n"
  from assms have ex: "\<exists>n. ?Q n" by blast
  from LeastI_ex[OF ex] obtain u v where uv: "s = u @ p @ v" "length u = (LEAST n. ?Q n)" by blast
  have "length u \<le> length u'" if "s = u' @ p @ v'" for u' v'
  proof -
    from that have "?Q (length u')" by blast
    then show ?thesis unfolding uv(2) by (rule Least_le)
  qed
  then show ?thesis using uv(1) by blast
qed

lemma split_lines_first_prefix: "split_lines s = l # ls \<Longrightarrow> \<exists>t. s = l @ t"
proof (induction s arbitrary: l ls)
  case Nil
  then show ?case by simp
next
  case (Cons x xs)
  show ?case
  proof (cases "x = CHR 0x0A")
    case True
    then show ?thesis using Cons.prems by auto
  next
    case False
    obtain l0 ls0 where sl: "split_lines xs = l0 # ls0"
      using split_lines_nonempty[of xs] by (cases "split_lines xs") auto
    then obtain t where "xs = l0 @ t" using Cons.IH by blast
    moreover have "l = x # l0" using Cons.prems False sl by simp
    ultimately show ?thesis by simp
  qed
qed

lemma findIndex_first_occurrence:
  assumes "code = u @ p @ v" "\<forall>u' v'. code = u' @ p @ v' \<longrightarrow> length u \<le> length u'"
    and "CHR 0x0A \<notin> set p"
  shows "findIndex (\<lambda>l. str_includes l p) (split_lines code) = int (count_list u (CHR 0x0A))"
  using assms
proof (induction u arbitrary: code)
  case Nil
  have "starts_with code p" unfolding starts_with_iff using Nil(1) by simp
  from split_lines_starts_with[OF this Nil(3)] obtain l ls where
    l: "split_lines code = l # ls" "starts_with l p" by blast
  have "str_includes l p" by (rule starts_with_includes[OF l(2)])
  then show ?case using l(1) by simp
next
  case (Cons x u)
  let ?code' = "u @ p @ v"
  have code: "code = x # ?code'" using Cons.prems(1) by simp
  have left': "\<forall>u' v'. ?code' = u' @ p @ v' \<longrightarrow> length u \<le> length u'"
  proof (intro allI impI)
    fix u' v' assume "?code' = u' @ p @ v'"
    then have "code = (x # u') @ p @ v'" using code by simp
    then have "length (x # u) \<le> length (x # u')" using Cons.prems(2) by blast
    then show "length u \<le> length u'" by simp
  qed
  have IH: "findIndex (\<lambda>l. str_includes l p) (split_lines ?code') = int (count_list u (CHR 0x0A))"
    by (rule Cons.IH[OF refl left' Cons.prems(3)])
  obtain l0 ls0 where sl: "split_lines ?code' = l0 # ls0"
    using split_lines_nonempty[of ?code'] by (cases "split_lines ?code'") auto
  have no_start: "\<not> starts_with (x # w) p" if "\<exists>t. ?code' = w @ t" for w
  proof
    assume "starts_with (x # w) p"
    then obtain t' where "x # w = p @ t'" unfolding starts_with_iff by blast
    moreover from that obtain t where "?code' = w @ t" by blast
    ultimately have "code = [] @ p @ (t' @ t)" using code by simp
    then have "length (x # u) \<le> length ([]::string)" using Cons.prems(2) by blast
    then show False by simp
  qed
  show ?case
  proof (cases "x = CHR 0x0A")
    case True
    have "p \<noteq> []"
    proof
      assume "p = []"
      then have "code = [] @ p @ code" by simp
      then have "length (x # u) \<le> length ([]::string)" using Cons.prems(2) by blast
      then show False by simp
    qed
    then have "\<not> str_includes [] p" by simp
    then have "findIndex (\<lambda>l. str_includes l p) (split_lines code)
        = findIndex (\<lambda>l. str_includes l p) (split_lines ?code') + 1"
      unfolding code using True IH by (simp add: Let_def)
    then show ?thesis using IH True by simp
  next
    case False
    have sl_code: "split_lines code = (x # l0) # ls0" unfolding code using False sl by simp
    have "\<exists>t. ?code' = l0 @ t" by (rule split_lines_first_prefix[OF sl])
    then have "\<not> starts_with (x # l0) p" by (rule no_start)
    then have "str_includes (x # l0) p = str_includes l0 p" by simp
    then have "findIndex (\<lambda>l. str_includes l p) (split_lines code)
        = findIndex (\<lambda>l. str_includes l p) (split_lines ?code')"
      unfolding sl_code sl by simp
    then show ?thesis using IH False by simp
  qed
qed

lemma verilog_latch_at_first_if:
  assumes "code = u @ ''if'' @ v" "\<forall>u' v'. code = u' @ ''if'' @ v' \<longrightarrow> length u \<le> length u'"
    and "\<not> str_includes code ''else''"
  shows "verilog_latch code =
     [\<lparr>type = ''latch_inference'', severity = Warning,
       line = Some (int (count_list u (CHR 0x0A)) + 1),
       message = ''Incomplete if statement may cause latch inference'',
       suggestion = ''Add an else clause or default assignment before the if statement''\<rparr>]"
proof -
  have inc: "str_includes code ''if''" unfolding str_includes_iff using assms(1) by blast
  have "findIndex (\<lambda>l. str_includes l ''if'') (split_lines code) = int (count_list u (CHR 0x0A))"
    by (rule findIndex_first_occurrence[OF assms(1) assms(2)]) simp
  then show ?thesis using inc assms(3) by (simp add: verilog_latch_def Let_def)
qed

text \<open>
  C1. A Verilog source in which \<open>if\<close> occurs and \<open>else\<close> occurs nowhere gets exactly
  one issue of kind \<open>latch_inference\<close>; its severity is warning, and its line is one
  more than the number of line feeds before the leftmost occurrence of \<open>if\<close>, that is,
  the 1-based number of the first source line that contains \<open>if\<close>. A Verilog source in
  which both \<open>if\<close> and \<open>else\<close> occur gets no issue of that kind. Occurrence is
  occurrence as a substring, the test of the detector (\<open>str_includes_iff\<close>).
\<close>

theorem verilog_latch_inference:
  "((\<exists>u v. code = u @ ''if'' @ v) \<and> \<not> (\<exists>u v. code = u @ ''else'' @ v) \<longrightarrow>
      (\<exists>r u v. analyzeVerilog code Verilog = Inr r
         \<and> code = u @ ''if'' @ v
         \<and> (\<forall>u' v'. code = u' @ ''if'' @ v' \<longrightarrow> length u \<le> length u')
         \<and> issues_of_type ''latch_inference'' (issues r) =
             [\<lparr>type = ''latch_inference'', severity = Warning,
               line = Some (int (count_list u (CHR 0x0A)) + 1),
               message = ''Incomplete if statement may cause latch inference'',
               suggestion = ''Add an else clause or default assignment before the if statement''\<rparr>]))
   \<and> ((\<exists>u v. code = u @ ''if'' @ v) \<and> (\<exists>u v. code = u @ ''else'' @ v) \<longrightarrow>
      (\<exists>r. analyzeVerilog code Verilog = Inr r
         \<and> issues_of_type ''latch_inference'' (issues r) = []))"
proof -
  obtain r where r: "analyzeVerilog code Verilog = Inr r"
    "issues_of_type ''latch_inference'' (issues r) = verilog_latch code"
    using verilog_issues_by_type by blast
  have one: "\<exists>r u v. analyzeVerilog code Verilog = Inr r
         \<and> code = u @ ''if'' @ v
         \<and> (\<forall>u' v'. code = u' @ ''if'' @ v' \<longrightarrow> length u \<le> length u')
         \<and> issues_of_type ''latch_inference'' (issues r) =
             [\<lparr>type = ''latch_inference'', severity = Warning,
               line = Some (int (count_list u (CHR 0x0A)) + 1),
               message = ''Incomplete if statement may cause latch inference'',
               suggestion = ''Add an else clause or default assignment before the if statement''\<rparr>]"
    if occ: "\<exists>u v. code = u @ ''if'' @ v" and no: "\<not> (\<exists>u v. code = u @ ''else'' @ v)"
  proof -
    from leftmost_occurrence[OF occ] obtain u v where
      uv: "code = u @ ''if'' @ v" "\<forall>u' v'. code = u' @ ''if'' @ v' \<longrightarrow> length u \<le> length u'"
      by blast
    have "\<not> str_includes code ''else''" unfolding str_includes_iff by (rule no)
    from verilog_latch_at_first_if[OF uv this] show ?thesis using r uv by auto
  qed
  have none: "\<exists>r. analyzeVerilog code Verilog = Inr r
         \<and> issues_of_type ''latch_inference'' (issues r) = []"
    if "\<exists>u v. code = u @ ''else'' @ v"
  proof -
    have "str_includes code ''else''" unfolding str_includes_iff by (rule that)
    then show ?thesis using r by (simp add: verilog_latch_def)
  qed
  from one none show ?thesis by blast
qed

text \<open>A source with its first \<open>if\<close> on line 3, and one with an \<open>else\<close>.\<close>

lemma latch_example_line3:
  "analyzeVerilog ''module m;\<newline>reg q;\<newline>if (en) q = d;'' Verilog =
     Inr \<lparr>totalIssues = 1,
          issues = [\<lparr>type = ''latch_inference'', severity = Warning, line = Some 3,
               message = ''Incomplete if statement may cause latch inference'',
               suggestion = ''Add an else clause or default assignment before the if statement''\<rparr>],
          summary = ''Found 1 issue(s): 1 warning(s)''\<rparr>"
  by code_simp

lemma latch_example_else:
  "analyzeVerilog ''if (en) q = d;\<newline>else r = e;'' Verilog =
     Inr \<lparr>totalIssues = 0, issues = [], summary = ''No issues found. Code looks good!''\<rparr>"
  by code_simp

lemma latch_example_facts:
  "str_includes ''module m;\<newline>reg q;\<newline>if (en) q = d;'' ''if''"
  "\<not> str_includes ''module m;\<newline>reg q;\<newline>if (en) q = d;'' ''else''"
  "str_includes ''if (en) q = d;\<newline>else r = e;'' ''if''"
  "str_includes ''if (en) q = d;\<newline>else r = e;'' ''else''"
  by simp_all

theorem verilog_latch_inference_witness:
  "(\<exists>u v. ''module m;\<newline>reg q;\<newline>if (en) q = d;'' = u @ ''if'' @ v)
   \<and> \<not> (\<exists>u v. ''module m;\<newline>reg q;\<newline>if (en) q = d;'' = u @ ''else'' @ v)
   \<and> (\<exists>r. analyzeVerilog ''module m;\<newline>reg q;\<newline>if (en) q = d;'' Verilog = Inr r
         \<and> issues_of_type ''latch_inference'' (issues r) =
             [\<lparr>type = ''latch_inference'', severity = Warning, line = Some 3,
               message = ''Incomplete if statement may cause latch inference'',
               suggestion = ''Add an else clause or default assignment before the if statement''\<rparr>])
   \<and> (\<exists>u v. ''if (en) q = d;\<newline>else r = e;'' = u @ ''if'' @ v)
   \<and> (\<exists>u v. ''if (en) q = d;\<newline>else r = e;'' = u @ ''else'' @ v)
   \<and> (\<exists>r. analyzeVerilog ''if (en) q = d;\<newline>else r = e;'' Verilog = Inr r
         \<and> issues_of_type ''latch_inference'' (issues r) = [])"
proof -
  let ?a = "''module m;\<newline>reg q;\<newline>if (en) q = d;''"
  let ?b = "''if (en) q = d;\<newline>else r = e;''"
  have a1: "\<exists>u v. ?a = u @ ''if'' @ v"
    using latch_example_facts(1) unfolding str_includes_iff .
  have a2: "\<not> (\<exists>u v. ?a = u @ ''else'' @ v)"
    using latch_example_facts(2) unfolding str_includes_iff .
  have b1: "\<exists>u v. ?b = u @ ''if'' @ v"
    using latch_example_facts(3) unfolding str_includes_iff .
  have b2: "\<exists>u v. ?b = u @ ''else'' @ v"
    using latch_example_facts(4) unfolding str_includes_iff .
  from verilog_latch_inference[of ?a] a1 a2 obtain r where
    r: "analyzeVerilog ?a Verilog = Inr r" by blast
  have "issues_of_type ''latch_inference'' (issues r) =
             [\<lparr>type = ''latch_inference'', severity = Warning, line = Some 3,
               message = ''Incomplete if statement may cause latch inference'',
               suggestion = ''Add an else clause or default assignment before the if statement''\<rparr>]"
    using r unfolding latch_example_line3 by (auto simp: issues_of_type_def)
  with r have c1: "\<exists>r. analyzeVerilog ?a Verilog = Inr r
         \<and> issues_of_type ''latch_inference'' (issues r) =
             [\<lparr>type = ''latch_inference'', severity = Warning, line = Some 3,
               message = ''Incomplete if statement may cause latch inference'',
               suggestion = ''Add an else clause or default assignment before the if statement''\<rparr>]"
    by blast
  from verilog_latch_inference[of ?b] b1 b2
  have c2: "\<exists>r. analyzeVerilog ?b Verilog = Inr r
         \<and> issues_of_type ''latch_inference'' (issues r) = []" by blast
  from a1 a2 c1 b1 b2 c2 show ?thesis by blast
qed

section \<open>The advisory generators\<close>

text \<open>
  C9. For every description, the signal type \<open>single-bit\<close> and an omitted signal type
  give the same recommendations, namely the one two-flop-synchronizer recommendation with
  its example, and the same fixed lists of six guidelines and three tool
  recommendations.
\<close>

theorem cdc_default_is_single_bit:
  "recommendations (detectCDCIssues d (Some Single_bit)) = recommendations (detectCDCIssues d None)
   \<and> recommendations (detectCDCIssues d None) =
       [\<lparr>scenario = ''Single-bit CDC crossing'', solution = ''Use a two-flop synchronizer'',
         verilogExample = Some two_flop_example\<rparr>]
   \<and> generalGuidelines (detectCDCIssues d (Some Single_bit)) = generalGuidelines (detectCDCIssues d None)
   \<and> toolRecommendations (detectCDCIssues d (Some Single_bit))
       = toolRecommendations (detectCDCIssues d None)
   \<and> length (generalGuidelines (detectCDCIssues d None)) = 6
   \<and> length (toolRecommendations (detectCDCIssues d None)) = 3"
  by (simp add: detectCDCIssues_def)

subsection \<open>The clock-period step of the timing guidance\<close>









section \<open>Verilog: two sources evaluated\<close>

lemma example_result:
  "analyzeVerilog ''always @(a or b) begin\<newline>  if (a)\<newline>    out = b;\<newline>end'' Verilog =
   Inr \<lparr>totalIssues = 2,
        issues =
          [\<lparr>type = ''latch_inference'', severity = Warning, line = Some 2,
              message = ''Incomplete if statement may cause latch inference'',
              suggestion = ''Add an else clause or default assignment before the if statement''\<rparr>,
           \<lparr>type = ''incomplete_sensitivity'', severity = Warning, line = None,
              message = ''Potentially incomplete sensitivity list. Missing signals: or, out'',
              suggestion = ''Use always @(*) for automatic sensitivity list generation''\<rparr>],
        summary = ''Found 2 issue(s): 2 warning(s)''\<rparr>"
  by code_simp

lemma example_signals:
  "extractSignals ''always @(a or b) begin\<newline>  if (a)\<newline>    out = b;\<newline>end''
       = [''a'', ''or'', ''b'', ''out'']"
  by code_simp

lemma example_header:
  "rx_search rx_alwaysMatch ''always @(a or b) begin\<newline>  if (a)\<newline>    out = b;\<newline>end''
       = Some (''always @(a or b)'', Some ''a or b'')"
  by code_simp

lemma example_listed: "rx_split rx_listedSignals ''a or b'' = [''a'', ''b'']"
  by code_simp

lemma example_no_edge:
  "hasAlwaysFF ''always @(a or b) begin\<newline>  if (a)\<newline>    out = b;\<newline>end'' = False"
  by code_simp

text \<open>
  C4. For the four-line source \<^verbatim>\<open>always @(a or b) begin / if (a) / out = b; / end\<close> the
  Verilog analysis returns exactly two issues: a \<open>latch_inference\<close> warning with line
  2 and an \<open>incomplete_sensitivity\<close> warning whose message names \<open>out\<close> (after
  \<open>or\<close>, which the extractor also takes for a signal) as missing: the referenced
  signals are \<open>a, or, b, out\<close>, the listed ones \<open>a, b\<close>. There is no
  \<open>blocking_in_sequential\<close> issue, as the source has no edge keyword.
\<close>

theorem sensitivity_example:
  "analyzeVerilog ''always @(a or b) begin\<newline>  if (a)\<newline>    out = b;\<newline>end'' Verilog =
   Inr \<lparr>totalIssues = 2,
        issues =
          [\<lparr>type = ''latch_inference'', severity = Warning, line = Some 2,
              message = ''Incomplete if statement may cause latch inference'',
              suggestion = ''Add an else clause or default assignment before the if statement''\<rparr>,
           \<lparr>type = ''incomplete_sensitivity'', severity = Warning, line = None,
              message = ''Potentially incomplete sensitivity list. Missing signals: or, out'',
              suggestion = ''Use always @(*) for automatic sensitivity list generation''\<rparr>],
        summary = ''Found 2 issue(s): 2 warning(s)''\<rparr>
   \<and> extractSignals ''always @(a or b) begin\<newline>  if (a)\<newline>    out = b;\<newline>end''
       = [''a'', ''or'', ''b'', ''out'']
   \<and> rx_search rx_alwaysMatch ''always @(a or b) begin\<newline>  if (a)\<newline>    out = b;\<newline>end''
       = Some (''always @(a or b)'', Some ''a or b'')
   \<and> rx_split rx_listedSignals ''a or b'' = [''a'', ''b'']
   \<and> hasAlwaysFF ''always @(a or b) begin\<newline>  if (a)\<newline>    out = b;\<newline>end'' = False"
  by (intro conjI example_result example_signals example_header example_listed example_no_edge)

lemma negedge_result:
  "analyzeVerilog ''assign negedge_seen = a;'' Verilog =
   Inr \<lparr>totalIssues = 1,
        issues =
          [\<lparr>type = ''blocking_in_sequential'', severity = Error, line = None,
              message = ''Using blocking assignments (=) in sequential always block'',
              suggestion = ''Use non-blocking assignments (<=) for sequential logic''\<rparr>],
        summary = ''Found 1 issue(s): 1 error(s)''\<rparr>"
  by code_simp

lemma negedge_no_header:
  "str_includes ''assign negedge_seen = a;'' ''always'' = False"
  "str_includes ''assign negedge_seen = a;'' ''@'' = False"
  "str_includes ''assign negedge_seen = a;'' ''('' = False"
  by simp_all

text \<open>
  C5. The source \<^verbatim>\<open>assign negedge_seen = a;\<close> has no \<open>always\<close>, no \<open>@\<close> and no
  parenthesis, hence no sensitivity specification, and yet the detector reports
  \<open>blocking_in_sequential\<close>: in \<^verbatim>\<open>/always\s*@\s*\(\s*posedge|negedge/\<close> the header
  prefix belongs to the first alternative only, so \<open>negedge\<close> anywhere counts as an
  edge-triggered header.
\<close>

theorem blocking_reported_without_header:
  "analyzeVerilog ''assign negedge_seen = a;'' Verilog =
   Inr \<lparr>totalIssues = 1,
        issues =
          [\<lparr>type = ''blocking_in_sequential'', severity = Error, line = None,
              message = ''Using blocking assignments (=) in sequential always block'',
              suggestion = ''Use non-blocking assignments (<=) for sequential logic''\<rparr>],
        summary = ''Found 1 issue(s): 1 error(s)''\<rparr>
   \<and> str_includes ''assign negedge_seen = a;'' ''always'' = False
   \<and> str_includes ''assign negedge_seen = a;'' ''@'' = False
   \<and> str_includes ''assign negedge_seen = a;'' ''('' = False"
  by (intro conjI negedge_result negedge_no_header)

section \<open>The texts matched by a pattern\<close>

lemma rx_reach_lang:
  "rx_reach r st st' \<Longrightarrow> \<exists>u. fst (snd st) = u @ fst (snd st') \<and> u \<in> lang r"
proof (induction r arbitrary: st st')
  case (Seq a b)
  from Seq.prems obtain m where m: "rx_reach a st m" "rx_reach b m st'"
    unfolding rx_reach.simps by blast
  from Seq.IH(1)[OF m(1)] obtain u where u: "fst (snd st) = u @ fst (snd m)" "u \<in> lang a" by blast
  from Seq.IH(2)[OF m(2)] obtain v where v: "fst (snd m) = v @ fst (snd st')" "v \<in> lang b" by blast
  have "fst (snd st) = (u @ v) @ fst (snd st')" using u(1) v(1) by simp
  moreover have "u @ v \<in> lang (Seq a b)" using u(2) v(2) by auto
  ultimately show ?case by blast
next
  case (Alt a b)
  from Alt.prems consider "rx_reach a st st'" | "rx_reach b st st'"
    unfolding rx_reach.simps by blast
  then show ?case
  proof cases
    case 1
    from Alt.IH(1)[OF 1] show ?thesis by auto
  next
    case 2
    from Alt.IH(2)[OF 2] show ?thesis by auto
  qed
next
  case (Grp a)
  obtain p s c where st: "st = (p, s, c)" by (cases st) auto
  from Grp.prems obtain p' s' c' where r: "rx_reach a (p, s, c) (p', s', c')"
    "st' = (p', s', Some (take (length s - length s') s))"
    unfolding st rx_reach.simps by blast
  from Grp.IH[OF r(1)] show ?case using st r(2) by auto
qed (cases st; cases st'; auto)+

lemma exec_at_lang:
  assumes "exec_at r p s = Some (p', s', c)"
  shows "\<exists>u. s = u @ s' \<and> u \<in> lang r"
proof -
  from assms have "rx_match r (p, s, None) Some = Some (p', s', c)" by (simp add: exec_at_def)
  from rx_match_sound[OF this] have "rx_reach r (p, s, None) (p', s', c)" by auto
  from rx_reach_lang[OF this] show ?thesis by simp
qed

lemma lang_reach:
  "wordb_free r \<Longrightarrow> u \<in> lang r \<Longrightarrow> \<exists>p' c'. rx_reach r (p, u @ v, c) (p', v, c')"
proof (induction r arbitrary: p u v c)
  case Eps
  then show ?case by simp
next
  case (Cls P)
  then show ?case by auto
next
  case (Star P)
  then have "\<forall>x\<in>set u. P x" by simp
  then have "rx_reach (Star P) (p, u @ v, c) (if u = [] then p else Some (last u), v, c)"
    unfolding rx_reach.simps by blast
  then show ?case by blast
next
  case (LazyStar P)
  then have "\<forall>x\<in>set u. P x" by simp
  then have "rx_reach (LazyStar P) (p, u @ v, c) (if u = [] then p else Some (last u), v, c)"
    unfolding rx_reach.simps by blast
  then show ?case by blast
next
  case WordB
  then show ?case by simp
next
  case (Seq a b)
  from Seq.prems(2) obtain u1 u2 where u: "u = u1 @ u2" "u1 \<in> lang a" "u2 \<in> lang b" by auto
  from Seq.prems(1) have wf: "wordb_free a" "wordb_free b" by simp_all
  from Seq.IH(1)[OF wf(1) u(2), of p "u2 @ v" c] obtain p1 c1 where
    r1: "rx_reach a (p, u1 @ u2 @ v, c) (p1, u2 @ v, c1)" by blast
  from Seq.IH(2)[OF wf(2) u(3), of p1 v c1] obtain p2 c2 where
    r2: "rx_reach b (p1, u2 @ v, c1) (p2, v, c2)" by blast
  have "rx_reach (Seq a b) (p, u @ v, c) (p2, v, c2)"
    unfolding rx_reach.simps u(1) using r1 r2 by auto
  then show ?case by blast
next
  case (Alt a b)
  from Alt.prems(2) consider "u \<in> lang a" | "u \<in> lang b" by auto
  then show ?case
  proof cases
    case 1
    from Alt.IH(1)[OF _ 1, of p v c] Alt.prems(1) obtain p' c' where
      "rx_reach a (p, u @ v, c) (p', v, c')" by auto
    then have "rx_reach (Alt a b) (p, u @ v, c) (p', v, c')" unfolding rx_reach.simps by blast
    then show ?thesis by blast
  next
    case 2
    from Alt.IH(2)[OF _ 2, of p v c] Alt.prems(1) obtain p' c' where
      "rx_reach b (p, u @ v, c) (p', v, c')" by auto
    then have "rx_reach (Alt a b) (p, u @ v, c) (p', v, c')" unfolding rx_reach.simps by blast
    then show ?thesis by blast
  qed
next
  case (Grp a)
  from Grp.IH[of u p v c] Grp.prems obtain p' c' where
    r: "rx_reach a (p, u @ v, c) (p', v, c')" by auto
  have "rx_reach (Grp a) (p, u @ v, c) (p', v, Some (take (length (u @ v) - length v) (u @ v)))"
    unfolding rx_reach.simps using r by blast
  then show ?case by blast
qed

lemma exec_at_complete:
  assumes "wordb_free r" "u \<in> lang r"
  shows "exec_at r p (u @ v) \<noteq> None"
proof
  assume "exec_at r p (u @ v) = None"
  then have n: "rx_match r (p, u @ v, None) Some = None" by (simp add: exec_at_def)
  from lang_reach[OF assms, of p v None] obtain p' c' where
    "rx_reach r (p, u @ v, None) (p', v, c')" by blast
  from rx_match_complete[OF n this] show False by simp
qed

lemma match_all_lang: "h \<in> set (match_all r p s) \<Longrightarrow> h \<in> lang r"
proof (induction s arbitrary: p rule: length_induct)
  case (1 s)
  have IH: "h \<in> set (match_all r q t) \<Longrightarrow> h \<in> lang r" if "length t < length s" for q t
    using 1(1) that by blast
  show ?case
  proof (cases "exec_at r p s")
    case None
    show ?thesis
    proof (cases s)
      case Nil
      then show ?thesis using 1(2) None by (simp add: match_all.simps)
    next
      case (Cons x xs)
      then have "h \<in> set (match_all r (Some x) xs)"
        using 1(2) None by (simp add: match_all.simps)
      then show ?thesis using IH[of xs "Some x"] Cons by simp
    qed
  next
    case (Some st)
    obtain p' s' c where st: "st = (p', s', c)" by (cases st) auto
    from exec_at_lang[OF Some[unfolded st]] obtain u where u: "s = u @ s'" "u \<in> lang r" by blast
    show ?thesis
    proof (cases "length s' < length s")
      case True
      then have "h = take (length s - length s') s \<or> h \<in> set (match_all r p' s')"
        using 1(2) Some st by (simp add: match_all.simps)
      moreover have "take (length s - length s') s = u" using u(1) by simp
      ultimately show ?thesis using u(2) IH[OF True] by blast
    next
      case False
      then have "u = []" using u(1) by auto
      show ?thesis
      proof (cases s)
        case Nil
        then have "h = []" using 1(2) Some st False by (simp add: match_all.simps)
        then show ?thesis using u(2) \<open>u = []\<close> by simp
      next
        case (Cons x xs)
        then have "h = [] \<or> h \<in> set (match_all r (Some x) xs)"
          using 1(2) Some st False by (simp add: match_all.simps)
        then show ?thesis using u(2) \<open>u = []\<close> IH[of xs "Some x"] Cons by auto
      qed
    qed
  qed
qed

section \<open>Verilog: clock-domain crossing\<close>

subsection \<open>The texts of the derived patterns and of a clock header\<close>

lemma lang_seqs_Cons: "lang (seqs (r # rs)) = {u @ v | u v. u \<in> lang r \<and> v \<in> lang (seqs rs)}"
  by (cases rs) auto

lemma lang_Chr: "lang (Chr c) = {[c]}"
  by (auto simp: Chr_def)

lemma lang_lit: "lang (lit w) = {w}"
proof (induction w)
  case Nil
  then show ?case by (simp add: lit_def)
next
  case (Cons c w)
  have "lang (lit (c # w)) = {u @ v | u v. u \<in> lang (Chr c) \<and> v \<in> lang (lit w)}"
    unfolding lit_def list.map by (rule lang_seqs_Cons)
  then show ?case using Cons by (simp add: lang_Chr)
qed

lemma lang_Plus: "lang (Plus P) = {u. u \<noteq> [] \<and> (\<forall>x\<in>set u. P x)}"
proof
  show "lang (Plus P) \<subseteq> {u. u \<noteq> [] \<and> (\<forall>x\<in>set u. P x)}"
    by (auto simp: Plus_def)
  show "{u. u \<noteq> [] \<and> (\<forall>x\<in>set u. P x)} \<subseteq> lang (Plus P)"
  proof
    fix u assume "u \<in> {u. u \<noteq> [] \<and> (\<forall>x\<in>set u. P x)}"
    then obtain x xs where "u = x # xs" "P x" "\<forall>y\<in>set xs. P y" by (cases u) auto
    then have "u = [x] @ xs \<and> [x] \<in> lang (Cls P) \<and> xs \<in> lang (Star P)" by simp
    then show "u \<in> lang (Plus P)" unfolding Plus_def lang.simps(6) by blast
  qed
qed

lemma lang_Opt: "lang (Opt r) = lang r \<union> {[]}"
  by (simp add: Opt_def)

lemma lang_hasClock:
  "lang rx_hasClock =
     {''@'' @ ws @ ''(posedge'' @ ws1 @ name @ '')'' | ws ws1 name.
        (\<forall>x\<in>set ws. is_space x) \<and> ws1 \<noteq> [] \<and> (\<forall>x\<in>set ws1. is_space x)
        \<and> name \<noteq> [] \<and> (\<forall>x\<in>set name. is_word x)}"
  unfolding rx_hasClock_def lang_seqs_Cons lang_Chr lang_lit lang_Plus lang.simps seqs.simps
  by (auto, blast)

lemma not_space_at: "\<not> is_space CHR ''@''"
  by (simp add: is_space_def)

lemma not_word_at: "\<not> is_word CHR ''@''"
  by (simp add: is_word_def)

lemma hasClock_match_shape:
  assumes "u \<in> lang rx_hasClock"
  shows "\<exists>m. u = CHR ''@'' # m \<and> CHR ''@'' \<notin> set m"
proof -
  from assms obtain ws ws1 name where
    u: "u = ''@'' @ ws @ ''(posedge'' @ ws1 @ name @ '')''"
    and ws: "\<forall>x\<in>set ws. is_space x" "\<forall>x\<in>set ws1. is_space x" "\<forall>x\<in>set name. is_word x"
    unfolding lang_hasClock by blast
  have "CHR ''@'' \<notin> set ws" "CHR ''@'' \<notin> set ws1" "CHR ''@'' \<notin> set name"
    using ws not_space_at not_word_at by blast+
  then have "CHR ''@'' \<notin> set (ws @ ''(posedge'' @ ws1 @ name @ '')'')" by simp
  then show ?thesis using u by simp
qed

subsection \<open>The scan reaches every occurrence of a header\<close>

lemma match_all_finds:
  assumes hit: "\<And>q. \<exists>q' c. exec_at r q (a # H @ post) = Some (q', post, c)"
    and shape: "\<And>u. u \<in> lang r \<Longrightarrow> \<exists>m. u = a # m \<and> a \<notin> set m"
  shows "a # H \<in> set (match_all r p (pre @ a # H @ post))"
proof (induction pre arbitrary: p rule: length_induct)
  case (1 pre)
  have IH: "a # H \<in> set (match_all r q (pre' @ a # H @ post))"
    if "length pre' < length pre" for q pre'
    using 1 that by blast
  show ?case
  proof (cases pre)
    case Nil
    from hit[of p] obtain q' c where e: "exec_at r p (a # H @ post) = Some (q', post, c)" by blast
    have "match_all r p (a # H @ post)
        = take (length (a # H @ post) - length post) (a # H @ post) # match_all r q' post"
      by (subst match_all.simps) (simp add: e)
    then show ?thesis using Nil by simp
  next
    case (Cons x pre')
    let ?s = "pre @ a # H @ post"
    show ?thesis
    proof (cases "exec_at r p ?s")
      case None
      then have "match_all r p ?s = match_all r (Some x) (pre' @ a # H @ post)"
        using Cons by (subst match_all.simps) simp
      then show ?thesis using IH[of pre' "Some x"] Cons by simp
    next
      case (Some st)
      obtain p' s' c where st: "st = (p', s', c)" by (cases st) auto
      from exec_at_lang[OF Some[unfolded st]] obtain u where u: "?s = u @ s'" "u \<in> lang r"
        by blast
      from shape[OF u(2)] obtain m where m: "u = a # m" "a \<notin> set m" by blast
      from u(1) obtain w where
        w: "(pre = u @ w \<and> w @ a # H @ post = s') \<or> (pre @ w = u \<and> a # H @ post = w @ s')"
        unfolding append_eq_append_conv2 by blast
      have "\<exists>pre''. pre = u @ pre'' \<and> s' = pre'' @ a # H @ post"
      proof (cases "pre = u @ w \<and> w @ a # H @ post = s'")
        case True
        then show ?thesis by blast
      next
        case False
        then have w2: "pre @ w = u" "a # H @ post = w @ s'" using w by auto
        show ?thesis
        proof (cases w)
          case Nil
          then show ?thesis using w2 by auto
        next
          case (Cons y w')
          then have "y = a" using w2(2) by simp
          then have "u = x # pre' @ a # w'" using w2(1) Cons \<open>pre = x # pre'\<close> by simp
          then have "a \<in> set m" using m(1) by auto
          then show ?thesis using m(2) by simp
        qed
      qed
      then obtain pre'' where pre'': "pre = u @ pre''" "s' = pre'' @ a # H @ post" by blast
      have len: "length s' < length ?s" using u(1) m(1) by (metis append_Cons length_append length_Cons less_add_Suc1 add.commute)
      have "length pre'' < length pre" using pre''(1) m(1) by simp
      from IH[OF this, of p'] have "a # H \<in> set (match_all r p' s')" using pre''(2) by simp
      moreover have "match_all r p ?s = take (length ?s - length s') ?s # match_all r p' s'"
        using Some st len by (subst match_all.simps) simp
      ultimately show ?thesis by simp
    qed
  qed
qed

lemma hit_clk1:
  "exec_at rx_hasClock q (''@(posedge clk1)'' @ post) = Some (Some CHR '')'', post, Some ''clk1'')"
  by (simp add: exec_at_def rx_hasClock_def lit_def Plus_def Chr_def is_space_def is_word_def)

lemma hit_clk2:
  "exec_at rx_hasClock q (''@(posedge clk2)'' @ post) = Some (Some CHR '')'', post, Some ''clk2'')"
  by (simp add: exec_at_def rx_hasClock_def lit_def Plus_def Chr_def is_space_def is_word_def)

lemma clock_of_clk1: "clocks_of [''@(posedge clk1)''] = [Some ''clk1'']"
  by code_simp

lemma clock_of_clk2: "clocks_of [''@(posedge clk2)''] = [Some ''clk2'']"
  by code_simp

subsection \<open>The rule\<close>

lemma clocks_of_member: "h \<in> set hs \<Longrightarrow> clocks_of [h] = [n] \<Longrightarrow> n \<in> set (clocks_of hs)"
  by (auto simp: clocks_of_def)

lemma clock_name_clk1:
  assumes "str_includes code ''always @(posedge clk1)''"
  shows "Some ''clk1'' \<in> set (clock_names code)"
proof -
  from assms obtain u v where "code = u @ ''always @(posedge clk1)'' @ v"
    unfolding str_includes_iff by blast
  then have code: "code = (u @ ''always '') @ CHR ''@'' # ''(posedge clk1)'' @ v" by simp
  have "CHR ''@'' # ''(posedge clk1)'' \<in> set (match_all rx_hasClock None code)"
    unfolding code
  proof (rule match_all_finds)
    show "\<exists>q' c. exec_at rx_hasClock q (CHR ''@'' # ''(posedge clk1)'' @ v) = Some (q', v, c)" for q
      using hit_clk1[of q v] by simp
    show "\<exists>m. w = CHR ''@'' # m \<and> CHR ''@'' \<notin> set m" if "w \<in> lang rx_hasClock" for w
      using that by (rule hasClock_match_shape)
  qed
  then show ?thesis unfolding clock_names_def using clocks_of_member clock_of_clk1 by simp
qed

lemma clock_name_clk2:
  assumes "str_includes code ''always @(posedge clk2)''"
  shows "Some ''clk2'' \<in> set (clock_names code)"
proof -
  from assms obtain u v where "code = u @ ''always @(posedge clk2)'' @ v"
    unfolding str_includes_iff by blast
  then have code: "code = (u @ ''always '') @ CHR ''@'' # ''(posedge clk2)'' @ v" by simp
  have "CHR ''@'' # ''(posedge clk2)'' \<in> set (match_all rx_hasClock None code)"
    unfolding code
  proof (rule match_all_finds)
    show "\<exists>q' c. exec_at rx_hasClock q (CHR ''@'' # ''(posedge clk2)'' @ v) = Some (q', v, c)" for q
      using hit_clk2[of q v] by simp
    show "\<exists>m. w = CHR ''@'' # m \<and> CHR ''@'' \<notin> set m" if "w \<in> lang rx_hasClock" for w
      using that by (rule hasClock_match_shape)
  qed
  then show ?thesis unfolding clock_names_def using clocks_of_member clock_of_clk2 by simp
qed

lemma two_clock_names:
  assumes "str_includes code ''always @(posedge clk1)''" "str_includes code ''always @(posedge clk2)''"
  shows "2 \<le> card (set (clock_names code))"
proof -
  have "{Some ''clk1'', Some ''clk2''} \<subseteq> set (clock_names code)"
    using clock_name_clk1[OF assms(1)] clock_name_clk2[OF assms(2)] by simp
  then have "card {Some ''clk1'', Some ''clk2''} \<le> card (set (clock_names code))"
    by (intro card_mono) simp_all
  then show ?thesis by simp
qed

lemma verilog_cdc_eq:
  "verilog_cdc code = (if 2 \<le> card (set (clock_names code)) then [cdc_issue] else [])"
proof -
  let ?hs = "match_all rx_hasClock None code"
  have len: "length (remdups (clocks_of ?hs)) = card (set (clock_names code))"
    by (simp add: clock_names_def length_remdups_card_conv)
  have "card (set (clock_names code)) \<le> length ?hs"
    unfolding clock_names_def using card_length[of "clocks_of ?hs"] by (simp add: clocks_of_def)
  then have "2 \<le> card (set (clock_names code)) \<Longrightarrow> ?hs \<noteq> [] \<and> 1 < length ?hs" by auto
  then show ?thesis
    unfolding verilog_cdc_def Let_def len cdc_issue_def by auto
qed

lemma search_from_complete:
  assumes "wordb_free r" "u \<in> lang r"
  shows "search_from r p (pre @ u @ post) \<noteq> None"
proof (induction pre arbitrary: p)
  case Nil
  have e: "exec_at r p (u @ post) \<noteq> None" by (rule exec_at_complete[OF assms])
  show ?case
  proof (cases "u @ post")
    case Nil
    then show ?thesis using e by (auto split: option.splits)
  next
    case (Cons x xs)
    then show ?thesis using e by (auto split: option.splits)
  qed
next
  case (Cons x pre)
  then show ?case by (auto split: option.splits)
qed

lemma wordb_free_lit: "wordb_free (lit w)"
proof (induction w)
  case Nil
  then show ?case by (simp add: lit_def)
next
  case (Cons c w)
  then show ?case by (cases w) (simp_all add: lit_def Chr_def)
qed

lemma wordb_free_posedge: "wordb_free rx_posedge"
  by (simp add: rx_posedge_def wordb_free_lit Plus_def)

lemma sets_group_posedge: "sets_group rx_posedge"
  by (simp add: rx_posedge_def)

lemma lang_posedge:
  "lang rx_posedge =
     {''posedge'' @ ws1 @ name | ws1 name.
        ws1 \<noteq> [] \<and> (\<forall>x\<in>set ws1. is_space x) \<and> name \<noteq> [] \<and> (\<forall>x\<in>set name. is_word x)}"
  unfolding rx_posedge_def lang_seqs_Cons lang_lit lang_Plus lang.simps seqs.simps
  by auto

lemma clock_names_defined: "None \<notin> set (clock_names code)"
proof
  assume "None \<in> set (clock_names code)"
  then obtain h where h: "h \<in> set (match_all rx_hasClock None code)"
    "(case rx_search rx_posedge h of None \<Rightarrow> None | Some (m, group1) \<Rightarrow> group1) = None"
    unfolding clock_names_def clocks_of_def by auto
  from match_all_lang[OF h(1)] obtain ws ws1 name where
    hh: "h = ''@'' @ ws @ ''(posedge'' @ ws1 @ name @ '')''"
    and w: "ws1 \<noteq> []" "\<forall>x\<in>set ws1. is_space x" "name \<noteq> []" "\<forall>x\<in>set name. is_word x"
    unfolding lang_hasClock by blast
  have "''posedge'' @ ws1 @ name \<in> lang rx_posedge" unfolding lang_posedge using w by blast
  from search_from_complete[OF wordb_free_posedge this, of None "''@'' @ ws @ ''(''" "'')''"]
  have "rx_search rx_posedge h \<noteq> None" unfolding rx_search_def hh by simp
  then obtain m g where mg: "rx_search rx_posedge h = Some (m, g)" by auto
  from rx_search_group[OF mg sets_group_posedge] have "g \<noteq> None" .
  then show False using h(2) mg by simp
qed

lemma two_clock_source:
  "str_includes ''always @(posedge clk1) a <= b; always @(posedge clk2) c <= a;''
     ''always @(posedge clk1)''"
  "str_includes ''always @(posedge clk1) a <= b; always @(posedge clk2) c <= a;''
     ''always @(posedge clk2)''"
  by simp_all

subsection \<open>What the patterns compute on a clock header\<close>

lemma rx_match_seqs_Cons:
  "rx_match (seqs (r # rs)) st k = rx_match r st (\<lambda>st'. rx_match (seqs rs) st' k)"
  by (cases rs) simp_all

lemma rx_match_Chr:
  "rx_match (Chr a) (p, x # t, c) k = (if x = a then k (Some a, t, c) else None)"
  by (simp add: Chr_def)

lemma rx_match_lit:
  "rx_match (lit w) (p, w @ r, c) k = k (if w = [] then p else Some (last w), r, c)"
proof (induction w arbitrary: p)
  case Nil
  then show ?case by (simp add: lit_def)
next
  case (Cons x w)
  have "rx_match (lit (x # w)) (p, (x # w) @ r, c) k
      = rx_match (Chr x) (p, x # w @ r, c) (\<lambda>st'. rx_match (lit w) st' k)"
    unfolding lit_def list.map rx_match_seqs_Cons by simp
  also have "\<dots> = rx_match (lit w) (Some x, w @ r, c) k" by (simp add: rx_match_Chr)
  also have "\<dots> = k (if w = [] then Some x else Some (last w), r, c)" by (rule Cons.IH)
  finally show ?case by simp
qed

lemma rx_match_lit_fail:
  "x \<noteq> a \<Longrightarrow> rx_match (lit (a # w)) (p, x # t, c) k = None"
  unfolding lit_def list.map rx_match_seqs_Cons by (simp add: rx_match_Chr)

lemma star_greedy_run:
  assumes "\<forall>y\<in>set u. P y" "\<not> P x"
    and "k (if u = [] then p else Some (last u), x # r, c) \<noteq> None
         \<or> (\<forall>p' y ys c'. P y \<longrightarrow> k (p', y # ys, c') = None)"
  shows "star_greedy P k p c (u @ x # r) = k (if u = [] then p else Some (last u), x # r, c)"
  using assms
proof (induction u arbitrary: p)
  case Nil
  then show ?case by simp
next
  case (Cons y u)
  have Py: "P y" using Cons.prems(1) by simp
  have same: "(if y # u = [] then p else Some (last (y # u)))
      = (if u = [] then Some y else Some (last u))" by simp
  have inner: "star_greedy P k (Some y) c (u @ x # r)
      = k (if u = [] then Some y else Some (last u), x # r, c)"
  proof (rule Cons.IH)
    show "\<forall>y\<in>set u. P y" using Cons.prems(1) by simp
    show "\<not> P x" by (rule Cons.prems(2))
    show "k (if u = [] then Some y else Some (last u), x # r, c) \<noteq> None
         \<or> (\<forall>p' y ys c'. P y \<longrightarrow> k (p', y # ys, c') = None)"
      using Cons.prems(3) unfolding same .
  qed
  show ?case
  proof (cases "k (if u = [] then Some y else Some (last u), x # r, c)")
    case None
    then have "\<forall>p' y ys c'. P y \<longrightarrow> k (p', y # ys, c') = None"
      using Cons.prems(3) unfolding same by simp
    then have "k (p, y # u @ x # r, c) = None" using Py by blast
    then show ?thesis unfolding same using inner None Py by simp
  next
    case (Some res)
    then show ?thesis unfolding same using inner Py by simp
  qed
qed

lemma word_not_space: "is_word c \<Longrightarrow> \<not> is_space c"
  by (auto simp: is_word_def is_space_def)

lemma not_word_paren: "\<not> is_word CHR '')''"
  by (simp add: is_word_def)

lemma not_space_paren: "\<not> is_space CHR ''(''"
  by (simp add: is_space_def)

lemma rx_match_Plus:
  "rx_match (Plus P) (p, x # t, c) k = (if P x then star_greedy P k (Some x) c t else None)"
  by (simp add: Plus_def)

lemma group_run:
  assumes "name \<noteq> []" "\<forall>y\<in>set name. is_word y"
  shows "rx_match (Grp (Plus is_word)) (p, name @ CHR '')'' # post, c)
           (\<lambda>st. rx_match (Chr CHR '')'') st Some)
         = Some (Some CHR '')'', post, Some name)"
proof -
  obtain n0 ns where name: "name = n0 # ns" using assms(1) by (cases name) auto
  let ?s = "name @ CHR '')'' # post"
  let ?K = "\<lambda>st. case st of (p', s', c') \<Rightarrow>
     rx_match (Chr CHR '')'') (p', s', Some (take (length ?s - length s') ?s)) Some"
  have "rx_match (Grp (Plus is_word)) (p, ?s, c) (\<lambda>st. rx_match (Chr CHR '')'') st Some)
      = rx_match (Plus is_word) (p, ?s, c) ?K" by simp
  also have "\<dots> = star_greedy is_word ?K (Some n0) c (ns @ CHR '')'' # post)"
    unfolding name using assms(2) name by (simp add: rx_match_Plus)
  also have "\<dots> = ?K (if ns = [] then Some n0 else Some (last ns), CHR '')'' # post, c)"
  proof (rule star_greedy_run)
    show "\<forall>y\<in>set ns. is_word y" using assms(2) name by simp
    show "\<not> is_word CHR '')''" by (rule not_word_paren)
    show "?K (if ns = [] then Some n0 else Some (last ns), CHR '')'' # post, c) \<noteq> None
         \<or> (\<forall>p' y ys c'. is_word y \<longrightarrow> ?K (p', y # ys, c') = None)"
      by (simp add: rx_match_Chr)
  qed
  also have "\<dots> = Some (Some CHR '')'', post, Some name)"
    by (simp add: rx_match_Chr)
  finally show ?thesis .
qed

lemma spaces_then_group:
  assumes "ws1 \<noteq> []" "\<forall>y\<in>set ws1. is_space y" "name \<noteq> []" "\<forall>y\<in>set name. is_word y"
  shows "rx_match (Plus is_space) (p, ws1 @ name @ CHR '')'' # post, c)
           (\<lambda>st. rx_match (seqs [Grp (Plus is_word), Chr CHR '')'']) st Some)
         = Some (Some CHR '')'', post, Some name)"
proof -
  obtain w0 ws' where ws1: "ws1 = w0 # ws'" using assms(1) by (cases ws1) auto
  obtain n0 ns where name: "name = n0 # ns" using assms(3) by (cases name) auto
  let ?k = "\<lambda>st. rx_match (seqs [Grp (Plus is_word), Chr CHR '')'']) st Some"
  have k_at: "?k (q, name @ CHR '')'' # post, c) = Some (Some CHR '')'', post, Some name)" for q
    using group_run[OF assms(3) assms(4), of q post c] by simp
  have "rx_match (Plus is_space) (p, ws1 @ name @ CHR '')'' # post, c) ?k
      = star_greedy is_space ?k (Some w0) c (ws' @ n0 # ns @ CHR '')'' # post)"
    unfolding ws1 name using assms(2) ws1 by (simp add: rx_match_Plus)
  also have "\<dots> = ?k (if ws' = [] then Some w0 else Some (last ws'), n0 # ns @ CHR '')'' # post, c)"
  proof (rule star_greedy_run)
    show "\<forall>y\<in>set ws'. is_space y" using assms(2) ws1 by simp
    show "\<not> is_space n0" using assms(4) name word_not_space by simp
    show "?k (if ws' = [] then Some w0 else Some (last ws'), n0 # ns @ CHR '')'' # post, c) \<noteq> None
         \<or> (\<forall>p' y ys c'. is_space y \<longrightarrow> ?k (p', y # ys, c') = None)"
      using k_at[of "if ws' = [] then Some w0 else Some (last ws')"] unfolding name by simp
  qed
  also have "\<dots> = Some (Some CHR '')'', post, Some name)"
    using k_at[of "if ws' = [] then Some w0 else Some (last ws')"] unfolding name by simp
  finally show ?thesis .
qed

lemma exec_hasClock_header:
  assumes "clock_header h name"
  shows "exec_at rx_hasClock q (h @ post) = Some (Some CHR '')'', post, Some name)"
proof -
  from assms obtain ws ws1 where h: "h = ''@'' @ ws @ ''(posedge'' @ ws1 @ name @ '')''"
    and w: "\<forall>c\<in>set ws. is_space c" "ws1 \<noteq> []" "\<forall>c\<in>set ws1. is_space c"
      "name \<noteq> []" "\<forall>c\<in>set name. is_word c"
    unfolding clock_header_def by blast
  let ?tail = "ws1 @ name @ CHR '')'' # post"
  let ?k4 = "\<lambda>st. rx_match (seqs [Plus is_space, Grp (Plus is_word), Chr CHR '')'']) st Some"
  let ?k3 = "\<lambda>st. rx_match (seqs [lit ''posedge'', Plus is_space, Grp (Plus is_word), Chr CHR '')'']) st Some"
  let ?k2 = "\<lambda>st. rx_match (seqs [Chr CHR ''('', lit ''posedge'', Plus is_space, Grp (Plus is_word),
                Chr CHR '')'']) st Some"
  have k4: "?k4 (p, ?tail, c) = Some (Some CHR '')'', post, Some name)" for p c
    unfolding rx_match_seqs_Cons[of "Plus is_space"]
    by (rule spaces_then_group[OF w(2) w(3) w(4) w(5)])
  have k3: "?k3 (p, ''posedge'' @ ?tail, c) = Some (Some CHR '')'', post, Some name)" for p c
    unfolding rx_match_seqs_Cons[of "lit ''posedge''"] rx_match_lit using k4 by simp
  have k2: "?k2 (p, CHR ''('' # ''posedge'' @ ?tail, c) = Some (Some CHR '')'', post, Some name)" for p c
    unfolding rx_match_seqs_Cons[of "Chr CHR ''(''"] rx_match_Chr using k3 by simp
  have k1: "star_greedy is_space ?k2 (Some CHR ''@'') None (ws @ CHR ''('' # ''posedge'' @ ?tail)
      = ?k2 (if ws = [] then Some CHR ''@'' else Some (last ws), CHR ''('' # ''posedge'' @ ?tail, None)"
  proof (rule star_greedy_run)
    show "\<forall>y\<in>set ws. is_space y" by (rule w(1))
    show "\<not> is_space CHR ''(''" by (rule not_space_paren)
    show "?k2 (if ws = [] then Some CHR ''@'' else Some (last ws), CHR ''('' # ''posedge'' @ ?tail, None)
            \<noteq> None
         \<or> (\<forall>p' y ys c'. is_space y \<longrightarrow> ?k2 (p', y # ys, c') = None)"
      using k2 by simp
  qed
  have "exec_at rx_hasClock q (h @ post)
      = rx_match (Chr CHR ''@'') (q, CHR ''@'' # ws @ CHR ''('' # ''posedge'' @ ?tail, None)
          (\<lambda>st. rx_match (Star is_space) st ?k2)"
    unfolding exec_at_def rx_hasClock_def h
      rx_match_seqs_Cons[of "Chr CHR ''@''"] rx_match_seqs_Cons[of "Star is_space"]
    by simp
  also have "\<dots> = star_greedy is_space ?k2 (Some CHR ''@'') None (ws @ CHR ''('' # ''posedge'' @ ?tail)"
    by (simp add: rx_match_Chr)
  also have "\<dots> = Some (Some CHR '')'', post, Some name)"
    unfolding k1 using k2 by simp
  finally show ?thesis .
qed

lemma plus_run:
  assumes "u \<noteq> []" "\<forall>y\<in>set u. P y" "\<not> P x"
    and "k (Some (last u), x # r, c) \<noteq> None
         \<or> (\<forall>p' y ys c'. P y \<longrightarrow> k (p', y # ys, c') = None)"
  shows "rx_match (Plus P) (p, u @ x # r, c) k = k (Some (last u), x # r, c)"
proof -
  obtain u0 us where u: "u = u0 # us" using assms(1) by (cases u) auto
  have l: "(if us = [] then Some u0 else Some (last us)) = Some (last u)" unfolding u by simp
  have "rx_match (Plus P) (p, u @ x # r, c) k = star_greedy P k (Some u0) c (us @ x # r)"
    unfolding u using assms(2) u by (simp add: rx_match_Plus)
  also have "\<dots> = k (if us = [] then Some u0 else Some (last us), x # r, c)"
  proof (rule star_greedy_run)
    show "\<forall>y\<in>set us. P y" using assms(2) u by simp
    show "\<not> P x" by (rule assms(3))
    show "k (if us = [] then Some u0 else Some (last us), x # r, c) \<noteq> None
         \<or> (\<forall>p' y ys c'. P y \<longrightarrow> k (p', y # ys, c') = None)"
      unfolding l by (rule assms(4))
  qed
  finally show ?thesis unfolding l .
qed

lemma group_plus_run:
  assumes "u \<noteq> []" "\<forall>y\<in>set u. P y" "\<not> P x"
    and "k (Some (last u), x # r, Some u) \<noteq> None
         \<or> (\<forall>p' y ys c'. P y \<longrightarrow> k (p', y # ys, c') = None)"
  shows "rx_match (Grp (Plus P)) (p, u @ x # r, c) k = k (Some (last u), x # r, Some u)"
proof -
  let ?s = "u @ x # r"
  let ?K = "\<lambda>st. case st of (p', s', c') \<Rightarrow> k (p', s', Some (take (length ?s - length s') ?s))"
  have at: "?K (Some (last u), x # r, c) = k (Some (last u), x # r, Some u)" by simp
  have "rx_match (Grp (Plus P)) (p, ?s, c) k = rx_match (Plus P) (p, ?s, c) ?K" by simp
  also have "\<dots> = ?K (Some (last u), x # r, c)"
  proof (rule plus_run[OF assms(1) assms(2) assms(3)])
    show "?K (Some (last u), x # r, c) \<noteq> None
         \<or> (\<forall>p' y ys c'. P y \<longrightarrow> ?K (p', y # ys, c') = None)"
      unfolding at using assms(4) by auto
  qed
  finally show ?thesis unfolding at .
qed

lemma exec_posedge_at:
  assumes "ws1 \<noteq> []" "\<forall>y\<in>set ws1. is_space y" "name \<noteq> []" "\<forall>y\<in>set name. is_word y"
  shows "exec_at rx_posedge q (''posedge'' @ ws1 @ name @ '')'')
         = Some (Some (last name), '')'', Some name)"
proof -
  obtain n0 ns where name: "name = n0 # ns" using assms(3) by (cases name) auto
  let ?k = "\<lambda>st. rx_match (seqs [Grp (Plus is_word)]) st Some"
  have g: "?k (p, name @ CHR '')'' # [], c) = Some (Some (last name), '')'', Some name)" for p c
    using group_plus_run[OF assms(3) assms(4) not_word_paren, of Some "[]" p c] by simp
  have sp: "rx_match (Plus is_space) (p, ws1 @ n0 # ns @ '')'', c) ?k
      = ?k (Some (last ws1), n0 # ns @ '')'', c)" for p c
  proof (rule plus_run[OF assms(1) assms(2)])
    show "\<not> is_space n0" using assms(4) name word_not_space by simp
    show "?k (Some (last ws1), n0 # ns @ '')'', c) \<noteq> None
         \<or> (\<forall>p' y ys c'. is_space y \<longrightarrow> ?k (p', y # ys, c') = None)"
      using g[of "Some (last ws1)" c] unfolding name by simp
  qed
  have "exec_at rx_posedge q (''posedge'' @ ws1 @ name @ '')'')
      = rx_match (Plus is_space) (Some CHR ''e'', ws1 @ name @ '')'', None) ?k"
    unfolding exec_at_def rx_posedge_def rx_match_seqs_Cons[of "lit ''posedge''"]
      rx_match_seqs_Cons[of "Plus is_space"] rx_match_lit by simp
  also have "\<dots> = Some (Some (last name), '')'', Some name)"
    using sp[of "Some CHR ''e''" None] g[of "Some (last ws1)" None] unfolding name by simp
  finally show ?thesis .
qed

lemma exec_posedge_fail: "y \<noteq> CHR ''p'' \<Longrightarrow> exec_at rx_posedge q (y # t) = None"
proof -
  assume "y \<noteq> CHR ''p''"
  then have "rx_match (lit ''posedge'') (q, y # t, None) k = None" for k
    by (rule rx_match_lit_fail)
  then show ?thesis
    unfolding exec_at_def rx_posedge_def rx_match_seqs_Cons[of "lit ''posedge''"] .
qed

lemma search_posedge_skip:
  assumes "\<forall>y\<in>set u. y \<noteq> CHR ''p''" "t \<noteq> []"
  shows "search_from rx_posedge p (u @ t) = search_from rx_posedge (if u = [] then p else Some (last u)) t"
  using assms
proof (induction u arbitrary: p)
  case Nil
  then show ?case by simp
next
  case (Cons y u)
  have "exec_at rx_posedge p (y # u @ t) = None" using Cons.prems(1) by (simp add: exec_posedge_fail)
  then have "search_from rx_posedge p ((y # u) @ t) = search_from rx_posedge (Some y) (u @ t)"
    by simp
  also have "\<dots> = search_from rx_posedge (if u = [] then Some y else Some (last u)) t"
    using Cons.IH[of "Some y"] Cons.prems by simp
  finally show ?case by simp
qed

lemma space_not_p: "is_space y \<Longrightarrow> y \<noteq> CHR ''p''"
  by (auto simp: is_space_def)

lemma clocks_of_header:
  assumes "clock_header h name"
  shows "clocks_of [h] = [Some name]"
proof -
  from assms obtain ws ws1 where h: "h = ''@'' @ ws @ ''(posedge'' @ ws1 @ name @ '')''"
    and w: "\<forall>c\<in>set ws. is_space c" "ws1 \<noteq> []" "\<forall>c\<in>set ws1. is_space c"
      "name \<noteq> []" "\<forall>c\<in>set name. is_word c"
    unfolding clock_header_def by blast
  let ?u = "''@'' @ ws @ ''(''" and ?t = "''posedge'' @ ws1 @ name @ '')''"
  have hu: "h = ?u @ ?t" unfolding h by simp
  have "\<forall>y\<in>set ?u. y \<noteq> CHR ''p''" using w(1) space_not_p by auto
  then have "search_from rx_posedge None (?u @ ?t)
      = search_from rx_posedge (if ?u = [] then None else Some (last ?u)) ?t"
    by (rule search_posedge_skip) simp
  also have "\<dots> = Some (take (length ?t - length '')'') ?t, Some name)"
    using exec_posedge_at[OF w(2) w(3) w(4) w(5), of "Some (last ?u)"] by simp
  finally have "rx_search rx_posedge h = Some (take (length ?t - length '')'') ?t, Some name)"
    unfolding rx_search_def hu .
  then show ?thesis by (simp add: clocks_of_def)
qed

lemma match_all_substring:
  "h \<in> set (match_all r p s) \<Longrightarrow> \<exists>pre post. s = pre @ h @ post"
proof (induction s arbitrary: p rule: length_induct)
  case (1 s)
  have IH: "h \<in> set (match_all r q t) \<Longrightarrow> \<exists>pre post. t = pre @ h @ post"
    if "length t < length s" for q t
    using 1(1) that by blast
  have tailcase: "\<exists>pre post. s = pre @ h @ post"
    if "s = x # xs" "h \<in> set (match_all r (Some x) xs)" for x xs
  proof -
    from IH[of xs "Some x"] that obtain pre post where "xs = pre @ h @ post" by auto
    then have "s = (x # pre) @ h @ post" using that(1) by simp
    then show ?thesis by blast
  qed
  have emptycase: "\<exists>pre post. s = pre @ h @ post" if "h = []"
  proof -
    have "s = [] @ h @ s" using that by simp
    then show ?thesis by blast
  qed
  show ?case
  proof (cases "exec_at r p s")
    case None
    show ?thesis
    proof (cases s)
      case Nil
      then show ?thesis using 1(2) None by (simp add: match_all.simps)
    next
      case (Cons x xs)
      then have "h \<in> set (match_all r (Some x) xs)"
        using 1(2) None by (simp add: match_all.simps)
      then show ?thesis using tailcase Cons by blast
    qed
  next
    case (Some st)
    obtain p' s' c where st: "st = (p', s', c)" by (cases st) auto
    from exec_at_lang[OF Some[unfolded st]] obtain u where u: "s = u @ s'" by blast
    show ?thesis
    proof (cases "length s' < length s")
      case True
      then consider "h = take (length s - length s') s" | "h \<in> set (match_all r p' s')"
        using 1(2) Some st by (auto simp: match_all.simps)
      then show ?thesis
      proof cases
        case 1
        then have "h = u" using u by simp
        then have "s = [] @ h @ s'" using u by simp
        then show ?thesis by blast
      next
        case 2
        from IH[OF True 2] obtain pre post where "s' = pre @ h @ post" by blast
        then have "s = (u @ pre) @ h @ post" using u by simp
        then show ?thesis by blast
      qed
    next
      case False
      show ?thesis
      proof (cases s)
        case Nil
        then have "h = []" using 1(2) Some st False by (simp add: match_all.simps)
        then show ?thesis by (rule emptycase)
      next
        case (Cons x xs)
        then have "h = [] \<or> h \<in> set (match_all r (Some x) xs)"
          using 1(2) Some st False by (simp add: match_all.simps)
        then show ?thesis using emptycase tailcase Cons by blast
      qed
    qed
  qed
qed

subsection \<open>The collected names are the names of the headers that occur\<close>

lemma lang_hasClock_header: "h \<in> lang rx_hasClock \<longleftrightarrow> (\<exists>name. clock_header h name)"
  unfolding lang_hasClock clock_header_def by blast

lemma clock_names_eq: "set (clock_names code) = Some ` header_names code"
proof
  show "set (clock_names code) \<subseteq> Some ` header_names code"
  proof
    fix x assume "x \<in> set (clock_names code)"
    then obtain h where h: "h \<in> set (match_all rx_hasClock None code)" "clocks_of [h] = [x]"
      unfolding clock_names_def clocks_of_def by auto
    from match_all_lang[OF h(1)] obtain name where n: "clock_header h name"
      unfolding lang_hasClock_header by blast
    from match_all_substring[OF h(1)] obtain pre post where "code = pre @ h @ post" by blast
    then have "name \<in> header_names code" unfolding header_names_def using n by blast
    moreover have "x = Some name" using clocks_of_header[OF n] h(2) by simp
    ultimately show "x \<in> Some ` header_names code" by blast
  qed
  show "Some ` header_names code \<subseteq> set (clock_names code)"
  proof
    fix x assume "x \<in> Some ` header_names code"
    then obtain name pre h post where x: "x = Some name" and code: "code = pre @ h @ post"
      and n: "clock_header h name"
      unfolding header_names_def by blast
    from n obtain H where H: "h = CHR ''@'' # H" unfolding clock_header_def by auto
    have "CHR ''@'' # H \<in> set (match_all rx_hasClock None (pre @ CHR ''@'' # H @ post))"
    proof (rule match_all_finds)
      show "\<exists>q' c. exec_at rx_hasClock q (CHR ''@'' # H @ post) = Some (q', post, c)" for q
        using exec_hasClock_header[OF n, of q post] unfolding H by simp
      show "\<exists>m. w = CHR ''@'' # m \<and> CHR ''@'' \<notin> set m" if "w \<in> lang rx_hasClock" for w
        using that by (rule hasClock_match_shape)
    qed
    then have "h \<in> set (match_all rx_hasClock None code)" unfolding code H by simp
    then show "x \<in> set (clock_names code)"
      unfolding clock_names_def x using clocks_of_member clocks_of_header[OF n] by blast
  qed
qed

lemma two_distinct_card:
  "finite S \<Longrightarrow> 2 \<le> card S \<longleftrightarrow> (\<exists>a b. a \<in> S \<and> b \<in> S \<and> a \<noteq> b)"
proof -
  assume f: "finite S"
  have "card S \<le> Suc 0 \<longleftrightarrow> (\<forall>a\<in>S. \<forall>b\<in>S. a = b)" by (rule card_le_Suc0_iff_eq[OF f])
  then show ?thesis by (auto simp: not_less_eq_eq numeral_2_eq_2)
qed

lemma two_header_names:
  "2 \<le> card (set (clock_names code))
   \<longleftrightarrow> (\<exists>n1 n2. n1 \<in> header_names code \<and> n2 \<in> header_names code \<and> n1 \<noteq> n2)"
proof -
  have "2 \<le> card (set (clock_names code))
     \<longleftrightarrow> (\<exists>a b. a \<in> set (clock_names code) \<and> b \<in> set (clock_names code) \<and> a \<noteq> b)"
    by (rule two_distinct_card) simp
  also have "\<dots> \<longleftrightarrow> (\<exists>n1 n2. n1 \<in> header_names code \<and> n2 \<in> header_names code \<and> n1 \<noteq> n2)"
    unfolding clock_names_eq by blast
  finally show ?thesis .
qed

lemma header_clk1: "clock_header ''@(posedge clk1)'' ''clk1''"
  unfolding clock_header_def
  by (rule exI[of _ "[]"], rule exI[of _ "'' ''"]) (simp add: is_space_def is_word_def)

lemma header_clk2: "clock_header ''@(posedge clk2)'' ''clk2''"
  unfolding clock_header_def
  by (rule exI[of _ "[]"], rule exI[of _ "'' ''"]) (simp add: is_space_def is_word_def)

text \<open>
  C7, amended. For every Verilog source the issues of kind \<open>clock_domain_crossing\<close>
  are: the one fixed warning, whose message names no signal, when two distinct names
  occur in headers of the exact form \<^verbatim>\<open>@(posedge name)\<close> somewhere in the source
  (\<open>header_names\<close>: optional white space after \<^verbatim>\<open>@\<close>, white space before the name,
  nothing else between the parentheses), and none otherwise; so there is never more
  than one. In particular every source in which \<^verbatim>\<open>always @(posedge clk1)\<close> and
  \<^verbatim>\<open>always @(posedge clk2)\<close> occur gets exactly one such warning.
\<close>

theorem cdc_exact_headers:
  "\<exists>r. analyzeVerilog code Verilog = Inr r
       \<and> issues_of_type ''clock_domain_crossing'' (issues r)
           = (if \<exists>n1 n2. n1 \<in> header_names code \<and> n2 \<in> header_names code \<and> n1 \<noteq> n2
              then [\<lparr>type = ''clock_domain_crossing'', severity = Warning, line = None,
                     message = ''Multiple clock domains detected - potential CDC issues'',
                     suggestion = ''Use proper synchronizers (two-flop) for single-bit CDC, async FIFOs for data''\<rparr>]
              else [])
       \<and> ((\<exists>u v. code = u @ ''always @(posedge clk1)'' @ v)
            \<and> (\<exists>u v. code = u @ ''always @(posedge clk2)'' @ v)
          \<longrightarrow> issues_of_type ''clock_domain_crossing'' (issues r)
                = [\<lparr>type = ''clock_domain_crossing'', severity = Warning, line = None,
                     message = ''Multiple clock domains detected - potential CDC issues'',
                     suggestion = ''Use proper synchronizers (two-flop) for single-bit CDC, async FIFOs for data''\<rparr>])"
proof -
  obtain r where r: "analyzeVerilog code Verilog = Inr r"
    "issues_of_type ''clock_domain_crossing'' (issues r) = verilog_cdc code"
    using verilog_issues_by_type by blast
  have eq: "issues_of_type ''clock_domain_crossing'' (issues r)
           = (if \<exists>n1 n2. n1 \<in> header_names code \<and> n2 \<in> header_names code \<and> n1 \<noteq> n2
              then [cdc_issue] else [])"
    unfolding r(2) verilog_cdc_eq two_header_names ..
  have two: "\<exists>n1 n2. n1 \<in> header_names code \<and> n2 \<in> header_names code \<and> n1 \<noteq> n2"
    if "\<exists>u v. code = u @ ''always @(posedge clk1)'' @ v"
       "\<exists>u v. code = u @ ''always @(posedge clk2)'' @ v"
  proof -
    from that(1) obtain u v where "code = u @ ''always @(posedge clk1)'' @ v" by blast
    then have "code = (u @ ''always '') @ ''@(posedge clk1)'' @ v" by simp
    then have a: "''clk1'' \<in> header_names code"
      unfolding header_names_def using header_clk1 by blast
    from that(2) obtain u' v' where "code = u' @ ''always @(posedge clk2)'' @ v'" by blast
    then have "code = (u' @ ''always '') @ ''@(posedge clk2)'' @ v'" by simp
    then have b: "''clk2'' \<in> header_names code"
      unfolding header_names_def using header_clk2 by blast
    have "''clk1'' \<noteq> ''clk2''" by simp
    with a b show ?thesis by blast
  qed
  show ?thesis using r(1) eq two unfolding cdc_issue_def by auto
qed

text \<open>
  C7 as stated fails where the edge-triggered headers are not of the exact form
  \<^verbatim>\<open>@(posedge name)\<close>: two blocks on the clocks \<open>clk1\<close> and \<open>clk2\<close> whose
  sensitivity lists also name a reset, or have white space inside the parentheses, get
  no warning at all.
\<close>

lemma reset_headers_no_issue:
  "analyzeVerilog ''always @(posedge clk1 or negedge rst) a <= b; always @(posedge clk2 or negedge rst) c <= a;'' Verilog
   = Inr \<lparr>totalIssues = 0, issues = [], summary = ''No issues found. Code looks good!''\<rparr>"
  by code_simp

lemma spaced_headers_no_issue:
  "analyzeVerilog ''always @( posedge clk1 ) a <= b; always @( posedge clk2 ) c <= a;'' Verilog
   = Inr \<lparr>totalIssues = 0, issues = [], summary = ''No issues found. Code looks good!''\<rparr>"
  by code_simp

theorem cdc_misses_other_header_forms:
  "analyzeVerilog ''always @(posedge clk1 or negedge rst) a <= b; always @(posedge clk2 or negedge rst) c <= a;'' Verilog
   = Inr \<lparr>totalIssues = 0, issues = [], summary = ''No issues found. Code looks good!''\<rparr>
   \<and> analyzeVerilog ''always @( posedge clk1 ) a <= b; always @( posedge clk2 ) c <= a;'' Verilog
   = Inr \<lparr>totalIssues = 0, issues = [], summary = ''No issues found. Code looks good!''\<rparr>"
  by (intro conjI reset_headers_no_issue spaced_headers_no_issue)

text \<open>A source with the two headers.\<close>

theorem cdc_exact_headers_witness:
  "(\<exists>u v. ''always @(posedge clk1) a <= b; always @(posedge clk2) c <= a;''
            = u @ ''always @(posedge clk1)'' @ v)
   \<and> (\<exists>u v. ''always @(posedge clk1) a <= b; always @(posedge clk2) c <= a;''
            = u @ ''always @(posedge clk2)'' @ v)
   \<and> (\<exists>r. analyzeVerilog ''always @(posedge clk1) a <= b; always @(posedge clk2) c <= a;'' Verilog
             = Inr r
          \<and> issues_of_type ''clock_domain_crossing'' (issues r)
                = [\<lparr>type = ''clock_domain_crossing'', severity = Warning, line = None,
                     message = ''Multiple clock domains detected - potential CDC issues'',
                     suggestion = ''Use proper synchronizers (two-flop) for single-bit CDC, async FIFOs for data''\<rparr>])"
proof -
  let ?src = "''always @(posedge clk1) a <= b; always @(posedge clk2) c <= a;''"
  have a: "\<exists>u v. ?src = u @ ''always @(posedge clk1)'' @ v"
    using two_clock_source(1) unfolding str_includes_iff .
  have b: "\<exists>u v. ?src = u @ ''always @(posedge clk2)'' @ v"
    using two_clock_source(2) unfolding str_includes_iff .
  from cdc_exact_headers[of ?src] a b show ?thesis by blast
qed

end
